theory Spec2Isabelle
  imports Main "HOL-Library.Word" "HOL-Library.Multiset"
begin

section \<open>The Set class of set.hpp\<close>

text \<open>
  \<^verbatim>\<open>Set<T, Equal>\<close> keeps its elements in a heap array \<^verbatim>\<open>_array\<close> of \<^verbatim>\<open>_size\<close> slots, of
  which the first \<^verbatim>\<open>_num_elements\<close> are occupied. The record below has the three data
  members. The array is the list of all \<^verbatim>\<open>_size\<close> slots, the unoccupied ones included:
  a slot past \<^verbatim>\<open>_num_elements\<close> holds a stale element or whatever \<^verbatim>\<open>new T[n]\<close> put there.

  \<^item> \<^verbatim>\<open>size_t\<close> is modelled by \<open>nat\<close>. The only arithmetic that could wrap is
    \<^verbatim>\<open>_size * 2\<close> in \<^verbatim>\<open>resize\<close>, which needs an array of at least \<open>2^63\<close> elements to exist.
  \<^item> The functor member \<^verbatim>\<open>_equal\<close> is stateless; it is the parameter \<open>equal\<close> of every
    function that calls it, applied in the argument order of the source.
  \<^item> \<^verbatim>\<open>new T[n]\<close> either yields an array of \<open>n\<close> fresh slots or throws. The parameter
    \<open>al\<close> says which requests succeed during one call, and \<open>dflt\<close> is the content of a
    fresh slot. Copying an element is taken not to throw.
  \<^item> A member function that mutates the object returns its outcome (a value, or the
    exception that leaves the function) together with the state of the object at that
    moment. A constructor or a free function that throws yields no object.
  \<^item> A parameter of type reference to const is an argument of the function and has no
    state afterwards: the source can only read it.
  \<^item> An index outside the array is undefined behaviour in the source. The members keep
    every index inside the array as long as \<^verbatim>\<open>_num_elements\<close> is at most \<^verbatim>\<open>_size\<close> and the
    array has \<^verbatim>\<open>_size\<close> slots; this is the predicate \<open>valid\<close> below, which every
    member preserves, and the theorems are about valid objects.
\<close>

datatype error = BadAlloc | OutOfRange

type_synonym allocator = "nat \<Rightarrow> bool"

record 'a SetObj =
  m_array :: "'a list"
  m_size :: nat
  m_num_elements :: nat

definition alloc_ok :: allocator where
  "alloc_ok = (\<lambda>n. True)"

definition alloc_fail :: allocator where
  "alloc_fail = (\<lambda>n. False)"

text \<open>\<^verbatim>\<open>new T[n]\<close>.\<close>

definition new_array :: "allocator \<Rightarrow> 'a \<Rightarrow> nat \<Rightarrow> error + 'a list" where
  "new_array al dflt n = (if al n then Inr (replicate n dflt) else Inl BadAlloc)"

text \<open>The loop \<^verbatim>\<open>for (i = 0; i < n; ++i) dst[i] = src[i];\<close> of \<^verbatim>\<open>resize\<close> and of the copy
  constructor, started at \<open>i\<close>.\<close>

function copy_loop :: "'a list \<Rightarrow> 'a list \<Rightarrow> nat \<Rightarrow> nat \<Rightarrow> 'a list" where
  "copy_loop dst src n i =
     (if i < n then copy_loop (dst[i := src ! i]) src n (i + 1) else dst)"
  by pat_completeness auto
termination
  by (relation "measure (\<lambda>(dst, src, n, i). n - i)") auto

declare copy_loop.simps [simp del]

text \<open>The default constructor \<^verbatim>\<open>Set()\<close>: no array, nothing allocated.\<close>

definition Set_default :: "'a SetObj" where
  "Set_default = \<lparr>m_array = [], m_size = 0, m_num_elements = 0\<rparr>"

text \<open>\<^verbatim>\<open>resize(bool increase)\<close>. When the allocation throws, the handler frees nothing
  of the object and rethrows: the object is as it was.\<close>

definition resize ::
  "allocator \<Rightarrow> 'a \<Rightarrow> bool \<Rightarrow> 'a SetObj \<Rightarrow> (error + unit) \<times> 'a SetObj" where
  "resize al dflt increase s =
     (let new_size = (if increase then (if m_size s > 0 then m_size s * 2 else 1)
                      else m_size s div 2)
      in case new_array al dflt new_size of
           Inl e \<Rightarrow> (Inl e, s)
         | Inr new_arr \<Rightarrow>
             (Inr (), s\<lparr>m_array := copy_loop new_arr (m_array s) (m_num_elements s) 0,
                        m_size := new_size\<rparr>))"

text \<open>\<^verbatim>\<open>contains(value)\<close>: the scan from index \<open>i\<close>.\<close>

function contains_loop :: "('a \<Rightarrow> 'a \<Rightarrow> bool) \<Rightarrow> 'a SetObj \<Rightarrow> 'a \<Rightarrow> nat \<Rightarrow> bool" where
  "contains_loop equal s v i =
     (if i < m_num_elements s
      then (if equal (m_array s ! i) v then True else contains_loop equal s v (i + 1))
      else False)"
  by pat_completeness auto
termination
  by (relation "measure (\<lambda>(equal, s, v, i). m_num_elements s - i)") auto

declare contains_loop.simps [simp del]

definition contains :: "('a \<Rightarrow> 'a \<Rightarrow> bool) \<Rightarrow> 'a SetObj \<Rightarrow> 'a \<Rightarrow> bool" where
  "contains equal s v = contains_loop equal s v 0"

text \<open>\<^verbatim>\<open>add(value)\<close>. An exception of \<^verbatim>\<open>resize\<close> leaves \<^verbatim>\<open>add\<close> before anything is
  stored.\<close>

definition add ::
  "('a \<Rightarrow> 'a \<Rightarrow> bool) \<Rightarrow> allocator \<Rightarrow> 'a \<Rightarrow> 'a SetObj \<Rightarrow> 'a \<Rightarrow> (error + bool) \<times> 'a SetObj"
  where
  "add equal al dflt s v =
     (if contains equal s v then (Inr False, s)
      else case (if m_num_elements s = m_size s then resize al dflt True s
                 else (Inr (), s)) of
             (Inl e, s1) \<Rightarrow> (Inl e, s1)
           | (Inr u, s1) \<Rightarrow>
               (Inr True, s1\<lparr>m_array := (m_array s1)[m_num_elements s1 := v],
                             m_num_elements := m_num_elements s1 + 1\<rparr>))"

text \<open>\<^verbatim>\<open>remove(value)\<close>: the scan from index \<open>i\<close>. The slot is overwritten and the count
  decremented before \<^verbatim>\<open>resize(false)\<close> is called, and \<^verbatim>\<open>remove\<close> has no handler: an
  exception of \<^verbatim>\<open>resize\<close> leaves \<^verbatim>\<open>remove\<close> with the element already taken out.\<close>

function remove_loop ::
  "('a \<Rightarrow> 'a \<Rightarrow> bool) \<Rightarrow> allocator \<Rightarrow> 'a \<Rightarrow> 'a SetObj \<Rightarrow> 'a \<Rightarrow> nat
     \<Rightarrow> (error + bool) \<times> 'a SetObj" where
  "remove_loop equal al dflt s v i =
     (if i < m_num_elements s
      then (if equal (m_array s ! i) v
            then (let s1 = s\<lparr>m_array := (m_array s)[i := m_array s ! (m_num_elements s - 1)]\<rparr>;
                      s2 = s1\<lparr>m_num_elements := m_num_elements s1 - 1\<rparr>
                  in case (if m_num_elements s2 \<le> m_size s2 div 4
                           then resize al dflt False s2 else (Inr (), s2)) of
                       (Inl e, s3) \<Rightarrow> (Inl e, s3)
                     | (Inr u, s3) \<Rightarrow> (Inr True, s3))
            else remove_loop equal al dflt s v (i + 1))
      else (Inr False, s))"
  by pat_completeness auto
termination
  by (relation "measure (\<lambda>(equal, al, dflt, s, v, i). m_num_elements s - i)") auto

declare remove_loop.simps [simp del]

definition remove ::
  "('a \<Rightarrow> 'a \<Rightarrow> bool) \<Rightarrow> allocator \<Rightarrow> 'a \<Rightarrow> 'a SetObj \<Rightarrow> 'a \<Rightarrow> (error + bool) \<times> 'a SetObj"
  where
  "remove equal al dflt s v = remove_loop equal al dflt s v 0"

text \<open>\<^verbatim>\<open>operator[](int index)\<close>. \<^verbatim>\<open>int\<close> is a signed 32-bit word. In
  \<^verbatim>\<open>index >= _num_elements\<close> the index is converted to \<^verbatim>\<open>size_t\<close> (sign-extended to 64 bits
  and read unsigned); \<^verbatim>\<open>_array[index]\<close> uses the signed value.\<close>

definition int_to_size_t :: "32 word \<Rightarrow> nat" where
  "int_to_size_t index = unat (scast index :: 64 word)"

definition subscript :: "'a SetObj \<Rightarrow> 32 word \<Rightarrow> error + 'a" where
  "subscript s index =
     (if sint index < 0 \<or> int_to_size_t index \<ge> m_num_elements s then Inl OutOfRange
      else Inr (m_array s ! nat (sint index)))"

text \<open>The class invariant on the sizes: the occupied range lies inside the array.\<close>

definition valid :: "'a SetObj \<Rightarrow> bool" where
  "valid s = (m_num_elements s \<le> m_size s \<and> length (m_array s) = m_size s)"

text \<open>The occupied slots, in iteration order (\<^verbatim>\<open>begin()\<close> to \<^verbatim>\<open>end()\<close>).\<close>

definition elements :: "'a SetObj \<Rightarrow> 'a list" where
  "elements s = take (m_num_elements s) (m_array s)"

text \<open>The copy constructor \<^verbatim>\<open>Set(const Set& other)\<close>: an array of \<^verbatim>\<open>other._size\<close> slots, the
  occupied slots of \<open>other\<close> copied into it. When the allocation throws there is no
  object.\<close>

definition Set_copy :: "allocator \<Rightarrow> 'a \<Rightarrow> 'a SetObj \<Rightarrow> error + 'a SetObj" where
  "Set_copy al dflt other =
     (case new_array al dflt (m_size other) of
        Inl e \<Rightarrow> Inl e
      | Inr arr \<Rightarrow>
          Inr \<lparr>m_array = copy_loop arr (m_array other) (m_num_elements other) 0,
               m_size = m_size other,
               m_num_elements = m_num_elements other\<rparr>)"

text \<open>\<^verbatim>\<open>empty()\<close>.\<close>

definition empty_Set :: "'a SetObj \<Rightarrow> 'a SetObj" where
  "empty_Set s = s\<lparr>m_array := [], m_num_elements := 0, m_size := 0\<rparr>"

text \<open>\<^verbatim>\<open>swap(Set &other)\<close>: the three members are exchanged one by one.\<close>

definition swap_Set :: "'a SetObj \<Rightarrow> 'a SetObj \<Rightarrow> 'a SetObj \<times> 'a SetObj" where
  "swap_Set s other =
     (s\<lparr>m_num_elements := m_num_elements other, m_size := m_size other,
        m_array := m_array other\<rparr>,
      other\<lparr>m_num_elements := m_num_elements s, m_size := m_size s,
            m_array := m_array s\<rparr>)"

text \<open>\<^verbatim>\<open>operator==(const Set& other)\<close>: the loop from index \<open>i\<close>, after the comparison
  of the counts.\<close>

function equals_loop :: "('a \<Rightarrow> 'a \<Rightarrow> bool) \<Rightarrow> 'a SetObj \<Rightarrow> 'a SetObj \<Rightarrow> nat \<Rightarrow> bool" where
  "equals_loop equal s other i =
     (if i < m_num_elements s
      then (if \<not> contains equal s (m_array other ! i) then False
            else equals_loop equal s other (i + 1))
      else True)"
  by pat_completeness auto
termination
  by (relation "measure (\<lambda>(equal, s, other, i). m_num_elements s - i)") auto

declare equals_loop.simps [simp del]

definition equals :: "('a \<Rightarrow> 'a \<Rightarrow> bool) \<Rightarrow> 'a SetObj \<Rightarrow> 'a SetObj \<Rightarrow> bool" where
  "equals equal s other =
     (if m_num_elements s \<noteq> m_num_elements other then False
      else equals_loop equal s other 0)"

text \<open>\<^verbatim>\<open>os << n\<close> for a \<^verbatim>\<open>size_t\<close>, as the standard library writes it on a stream
  with its default flags and locale: the decimal digits, most significant first.\<close>

definition digit_char :: "nat \<Rightarrow> char" where
  "digit_char k = ''0123456789'' ! k"

function show_size_t :: "nat \<Rightarrow> string" where
  "show_size_t n =
     (if n < 10 then [digit_char n] else show_size_t (n div 10) @ [digit_char (n mod 10)])"
  by pat_completeness auto
termination
  by (relation "measure (\<lambda>n. n)") auto

declare show_size_t.simps [simp del]

text \<open>Reading a decimal numeral back, continuing from the value \<open>a\<close> of the digits read
  so far: the check that \<open>show_size_t\<close> writes the number in base ten.\<close>

definition digit_value :: "char \<Rightarrow> nat" where
  "digit_value c = of_char c - 48"

fun dec_value :: "nat \<Rightarrow> string \<Rightarrow> nat" where
  "dec_value a [] = a"
| "dec_value a (c # cs) = dec_value (a * 10 + digit_value c) cs"

text \<open>\<^verbatim>\<open>operator<<(std::ostream& os, const Set& set)\<close>. The stream is the string written
  so far; \<open>show_elem\<close> is what \<^verbatim>\<open>os << element\<close> writes for the element type.\<close>

function print_loop :: "('a \<Rightarrow> string) \<Rightarrow> string \<Rightarrow> 'a SetObj \<Rightarrow> nat \<Rightarrow> string" where
  "print_loop show_elem os s i =
     (if i < m_num_elements s
      then print_loop show_elem (os @ '' ('' @ show_elem (m_array s ! i) @ '')'') s (i + 1)
      else os)"
  by pat_completeness auto
termination
  by (relation "measure (\<lambda>(show_elem, os, s, i). m_num_elements s - i)") auto

declare print_loop.simps [simp del]

definition print_Set :: "('a \<Rightarrow> string) \<Rightarrow> string \<Rightarrow> 'a SetObj \<Rightarrow> string" where
  "print_Set show_elem os s =
     print_loop show_elem (os @ show_size_t (m_num_elements s)) s 0"

text \<open>\<^verbatim>\<open>os << e\<close> for an element of type \<^verbatim>\<open>std::string\<close>: its characters.\<close>

definition show_string :: "string \<Rightarrow> string" where
  "show_string e = e"

text \<open>\<^verbatim>\<open>operator+(a, b)\<close>: \<^verbatim>\<open>new_set\<close> is copy-constructed from \<open>a\<close>, then the loop runs
  over \<open>b\<close> from \<^verbatim>\<open>b.begin()\<close> (index \<open>0\<close>) to \<^verbatim>\<open>b.end()\<close>. The handler empties
  \<^verbatim>\<open>new_set\<close> and rethrows. The object returned is \<^verbatim>\<open>new_set\<close> itself (the copy on return
  is elided).\<close>

function plus_loop ::
  "('a \<Rightarrow> 'a \<Rightarrow> bool) \<Rightarrow> allocator \<Rightarrow> 'a \<Rightarrow> 'a SetObj \<Rightarrow> 'a SetObj \<Rightarrow> nat
     \<Rightarrow> error + 'a SetObj" where
  "plus_loop equal al dflt new_set b i =
     (if i < m_num_elements b
      then (case add equal al dflt new_set (m_array b ! i) of
              (Inl e, ns) \<Rightarrow> Inl e
            | (Inr r, ns) \<Rightarrow> plus_loop equal al dflt ns b (i + 1))
      else Inr new_set)"
  by pat_completeness auto
termination
  by (relation "measure (\<lambda>(equal, al, dflt, new_set, b, i). m_num_elements b - i)") auto

declare plus_loop.simps [simp del]

definition operator_plus ::
  "('a \<Rightarrow> 'a \<Rightarrow> bool) \<Rightarrow> allocator \<Rightarrow> 'a \<Rightarrow> 'a SetObj \<Rightarrow> 'a SetObj \<Rightarrow> error + 'a SetObj"
  where
  "operator_plus equal al dflt a b =
     (case Set_copy al dflt a of
        Inl e \<Rightarrow> Inl e
      | Inr new_set \<Rightarrow> plus_loop equal al dflt new_set b 0)"

text \<open>\<^verbatim>\<open>operator-(a, b)\<close>: \<^verbatim>\<open>new_set\<close> starts default-constructed, and the loop runs over
  \<open>a\<close>.\<close>

function minus_loop ::
  "('a \<Rightarrow> 'a \<Rightarrow> bool) \<Rightarrow> allocator \<Rightarrow> 'a \<Rightarrow> 'a SetObj \<Rightarrow> 'a SetObj \<Rightarrow> 'a SetObj \<Rightarrow> nat
     \<Rightarrow> error + 'a SetObj" where
  "minus_loop equal al dflt a b new_set i =
     (if i < m_num_elements a
      then (if contains equal b (m_array a ! i)
            then (case add equal al dflt new_set (m_array a ! i) of
                    (Inl e, ns) \<Rightarrow> Inl e
                  | (Inr r, ns) \<Rightarrow> minus_loop equal al dflt a b ns (i + 1))
            else minus_loop equal al dflt a b new_set (i + 1))
      else Inr new_set)"
  by pat_completeness auto
termination
  by (relation "measure (\<lambda>(equal, al, dflt, a, b, new_set, i). m_num_elements a - i)") auto

declare minus_loop.simps [simp del]

definition operator_minus ::
  "('a \<Rightarrow> 'a \<Rightarrow> bool) \<Rightarrow> allocator \<Rightarrow> 'a \<Rightarrow> 'a SetObj \<Rightarrow> 'a SetObj \<Rightarrow> error + 'a SetObj"
  where
  "operator_minus equal al dflt a b = minus_loop equal al dflt a b Set_default 0"

text \<open>The uniqueness invariant: no two occupied slots are related by \<open>equal\<close>, in either
  argument order.\<close>

fun unique :: "('a \<Rightarrow> 'a \<Rightarrow> bool) \<Rightarrow> 'a list \<Rightarrow> bool" where
  "unique equal [] = True"
| "unique equal (x # xs) =
     (list_all (\<lambda>y. \<not> equal x y \<and> \<not> equal y x) xs \<and> unique equal xs)"

text \<open>The object after the two assignments of the matching branch of \<^verbatim>\<open>remove\<close>, for
  a match at index \<open>i\<close>: \<^verbatim>\<open>_array[i] = _array[_num_elements - 1]; --_num_elements;\<close>\<close>

definition swap_remove :: "'a SetObj \<Rightarrow> nat \<Rightarrow> 'a SetObj" where
  "swap_remove s i =
     s\<lparr>m_array := (m_array s)[i := m_array s ! (m_num_elements s - 1)],
       m_num_elements := m_num_elements s - 1\<rparr>"

text \<open>Index \<open>i\<close> is the first occupied slot whose element matches \<open>v\<close>.\<close>

definition first_match :: "('a \<Rightarrow> 'a \<Rightarrow> bool) \<Rightarrow> 'a SetObj \<Rightarrow> 'a \<Rightarrow> nat \<Rightarrow> bool" where
  "first_match equal s v i =
     (i < m_num_elements s \<and> equal (m_array s ! i) v
      \<and> list_all (\<lambda>x. \<not> equal x v) (take i (m_array s)))"

subsection \<open>Programs over several Sets\<close>

text \<open>
  A client holds some Set objects and calls their members one after the other. The
  objects are the entries of a list, named by position; each call comes with the
  allocator behaviour during that call. A call that throws leaves its object as the
  member function left it, and the client goes on. A call on a position that holds
  no object does nothing.
\<close>

datatype 'a operation =
    OpAdd nat 'a
  | OpRemove nat 'a
  | OpEmpty nat
  | OpCopy nat
  | OpSwap nat nat

fun exec ::
  "('a \<Rightarrow> 'a \<Rightarrow> bool) \<Rightarrow> 'a \<Rightarrow> allocator \<times> 'a operation \<Rightarrow> 'a SetObj list \<Rightarrow> 'a SetObj list"
  where
  "exec equal dflt (al, OpAdd i v) st =
     (if i < length st then st[i := snd (add equal al dflt (st ! i) v)] else st)"
| "exec equal dflt (al, OpRemove i v) st =
     (if i < length st then st[i := snd (remove equal al dflt (st ! i) v)] else st)"
| "exec equal dflt (al, OpEmpty i) st =
     (if i < length st then st[i := empty_Set (st ! i)] else st)"
| "exec equal dflt (al, OpCopy i) st =
     (if i < length st
      then (case Set_copy al dflt (st ! i) of Inl e \<Rightarrow> st | Inr c \<Rightarrow> st @ [c])
      else st)"
| "exec equal dflt (al, OpSwap i j) st =
     (if i < length st \<and> j < length st
      then (case swap_Set (st ! i) (st ! j) of (a, b) \<Rightarrow> (st[i := a])[j := b])
      else st)"

fun run ::
  "('a \<Rightarrow> 'a \<Rightarrow> bool) \<Rightarrow> 'a \<Rightarrow> 'a SetObj list \<Rightarrow> (allocator \<times> 'a operation) list
     \<Rightarrow> 'a SetObj list" where
  "run equal dflt st [] = st"
| "run equal dflt st (c # cs) = run equal dflt (exec equal dflt c st) cs"

text \<open>The occupancy bound that the shrink of \<^verbatim>\<open>remove\<close> maintains: more than a quarter of
  the slots are occupied, in an array of at least two slots.\<close>

definition occupancy_ok :: "'a SetObj \<Rightarrow> bool" where
  "occupancy_ok s = (m_size s < 2 \<or> m_size s div 4 < m_num_elements s)"

section \<open>Facts about the loops and the occupied range\<close>

lemma copy_loop_eq:
  "i \<le> n \<Longrightarrow> n \<le> length dst \<Longrightarrow> n \<le> length src \<Longrightarrow>
   copy_loop dst src n i = take i dst @ take (n - i) (drop i src) @ drop n dst"
proof (induction dst src n i rule: copy_loop.induct)
  case (1 dst src n i)
  show ?case
  proof (cases "i < n")
    case True
    have step: "copy_loop dst src n i = copy_loop (dst[i := src ! i]) src n (i + 1)"
      using True by (subst copy_loop.simps) simp
    have ih: "copy_loop (dst[i := src ! i]) src n (i + 1) =
        take (i + 1) (dst[i := src ! i]) @ take (n - (i + 1)) (drop (i + 1) src)
          @ drop n (dst[i := src ! i])"
      using "1.IH" [OF True] True "1.prems" by simp
    have t1: "take (i + 1) (dst[i := src ! i]) = take i dst @ [src ! i]"
      using True "1.prems" by (simp add: take_Suc_conv_app_nth)
    have t2: "drop n (dst[i := src ! i]) = drop n dst"
      using True by simp
    have "drop i src = src ! i # drop (i + 1) src"
      using True "1.prems" by (simp add: Cons_nth_drop_Suc)
    moreover have "n - i = Suc (n - (i + 1))"
      using True by simp
    ultimately have t3: "take (n - i) (drop i src) = src ! i # take (n - (i + 1)) (drop (i + 1) src)"
      by simp
    show ?thesis
      by (simp only: step ih t1 t2 t3 append_assoc append_Cons append_Nil)
  next
    case False
    then have "i = n" using "1.prems" by simp
    moreover have "copy_loop dst src n i = dst"
      using False by (subst copy_loop.simps) simp
    ultimately show ?thesis by simp
  qed
qed

lemma copy_loop_0:
  "n \<le> length dst \<Longrightarrow> n \<le> length src \<Longrightarrow> copy_loop dst src n 0 = take n src @ drop n dst"
  using copy_loop_eq [of 0 n dst src] by simp

lemma contains_loop_iff:
  "contains_loop equal s v i \<longleftrightarrow> (\<exists>k. i \<le> k \<and> k < m_num_elements s \<and> equal (m_array s ! k) v)"
proof (induction equal s v i rule: contains_loop.induct)
  case (1 equal s v i)
  show ?case
  proof (cases "i < m_num_elements s")
    case False
    then show ?thesis by (subst contains_loop.simps) auto
  next
    case True
    show ?thesis
    proof (cases "equal (m_array s ! i) v")
      case True
      then show ?thesis using \<open>i < m_num_elements s\<close> by (subst contains_loop.simps) auto
    next
      case False
      have "contains_loop equal s v i = contains_loop equal s v (i + 1)"
        using True False by (subst contains_loop.simps) simp
      also have "\<dots> \<longleftrightarrow> (\<exists>k. i + 1 \<le> k \<and> k < m_num_elements s \<and> equal (m_array s ! k) v)"
        using "1.IH" [OF True False] .
      also have "\<dots> \<longleftrightarrow> (\<exists>k. i \<le> k \<and> k < m_num_elements s \<and> equal (m_array s ! k) v)"
        using False by (metis Suc_eq_plus1 Suc_leI le_neq_implies_less Suc_leD)
      finally show ?thesis .
    qed
  qed
qed

lemma contains_iff:
  "contains equal s v \<longleftrightarrow> (\<exists>k < m_num_elements s. equal (m_array s ! k) v)"
  by (simp add: contains_def contains_loop_iff)

lemma set_elements:
  "valid s \<Longrightarrow> set (elements s) = nth (m_array s) ` {0..<m_num_elements s}"
  by (simp add: elements_def valid_def nth_image)

lemma length_elements:
  "valid s \<Longrightarrow> length (elements s) = m_num_elements s"
  by (simp add: elements_def valid_def)

lemma contains_elements:
  "valid s \<Longrightarrow> contains equal s v \<longleftrightarrow> (\<exists>x \<in> set (elements s). equal x v)"
proof -
  assume "valid s"
  then have "set (elements s) = nth (m_array s) ` {0..<m_num_elements s}"
    by (simp add: elements_def valid_def nth_image)
  then show ?thesis
    by (auto simp: contains_iff)
qed

lemma take_Suc_elements:
  assumes "valid s" and "i < m_num_elements s"
  shows "take (i + 1) (elements s) = take i (elements s) @ [m_array s ! i]"
proof -
  have "i < length (elements s)"
    using assms by (simp add: length_elements)
  then have "take (Suc i) (elements s) = take i (elements s) @ [elements s ! i]"
    by (rule take_Suc_conv_app_nth)
  then show ?thesis
    using assms(2) by (simp add: elements_def)
qed

section \<open>Resizing\<close>

lemma resize_fail:
  "\<not> al (if increase then (if m_size s > 0 then m_size s * 2 else 1) else m_size s div 2)
   \<Longrightarrow> resize al dflt increase s = (Inl BadAlloc, s)"
  by (simp add: resize_def new_array_def Let_def)

lemma resize_ok:
  assumes "al new_size"
    and "new_size = (if increase then (if m_size s > 0 then m_size s * 2 else 1) else m_size s div 2)"
    and "m_num_elements s \<le> length (m_array s)"
    and "m_num_elements s \<le> new_size"
  shows "resize al dflt increase s =
    (Inr (), s\<lparr>m_array := elements s @ replicate (new_size - m_num_elements s) dflt,
               m_size := new_size\<rparr>)"
proof -
  have "copy_loop (replicate new_size dflt) (m_array s) (m_num_elements s) 0 =
      take (m_num_elements s) (m_array s) @ drop (m_num_elements s) (replicate new_size dflt)"
    using assms(3,4) by (simp add: copy_loop_0)
  then show ?thesis
    using assms(1,2) by (simp add: resize_def new_array_def Let_def elements_def)
qed

lemma resize_shrink_ok:
  assumes "valid s" and "m_num_elements s \<le> m_size s div 4" and "al (m_size s div 2)"
  shows "\<exists>s'. resize al dflt False s = (Inr (), s') \<and> elements s' = elements s
    \<and> m_num_elements s' = m_num_elements s \<and> m_size s' = m_size s div 2 \<and> valid s'"
proof -
  let ?n = "m_num_elements s" and ?ns = "m_size s div 2"
  have le: "?n \<le> ?ns" "?n \<le> length (m_array s)"
    using assms(1,2) by (simp_all add: valid_def)
  have "resize al dflt False s =
      (Inr (), s\<lparr>m_array := elements s @ replicate (?ns - ?n) dflt, m_size := ?ns\<rparr>)"
    using assms(3) le by (intro resize_ok) simp_all
  moreover have "length (elements s) = ?n"
    using le by (simp add: elements_def)
  ultimately show ?thesis
    using le by (simp add: elements_def valid_def)
qed

section \<open>Evaluation on concrete Sets\<close>

lemma replicate_numeral: "replicate (numeral k) x = x # replicate (pred_numeral k) x"
  by (simp add: numeral_eq_Suc)

lemmas eval_simps = replicate_numeral
  contains_def contains_loop.simps add_def remove_def remove_loop.simps resize_def
  new_array_def copy_loop.simps alloc_ok_def alloc_fail_def valid_def elements_def
  Set_default_def Let_def

lemmas eval_remove = eval_simps first_match_def swap_remove_def

lemmas eval_run = eval_remove run.simps exec.simps occupancy_ok_def Set_copy_def
  empty_Set_def swap_Set_def

section \<open>Indexed access\<close>

lemma int_to_size_t_nonneg: "0 \<le> sint index \<Longrightarrow> int_to_size_t index = nat (sint index)"
proof -
  assume nn: "0 \<le> sint index"
  have lt: "sint index < 2 ^ 31"
    using sint_lt [of index] by simp
  have "sint index < 2 ^ 64"
    by (rule less_trans [OF lt]) simp
  then have m: "sint index mod 2 ^ 64 = sint index"
    using nn by (rule_tac mod_pos_pos_trivial)
  have "uint (scast index :: 64 word) = sint index mod 2 ^ LENGTH(64)"
    unfolding scast_eq by (rule uint_word_of_int)
  then have "uint (scast index :: 64 word) = sint index"
    using m by simp
  then show ?thesis
    by (simp only: int_to_size_t_def unat_eq_nat_uint)
qed

text \<open>
  Claim C8. For every Set and every \<^verbatim>\<open>int\<close> index, indexed access returns the element
  of slot \<open>index\<close> exactly when \<open>0 \<le> index < _num_elements\<close>, and otherwise ends with
  the out-of-range error and no element. A negative index is rejected by the test
  \<^verbatim>\<open>index < 0\<close> itself, whatever the element count is.
\<close>

theorem subscript_range:
  "subscript s index =
     (if 0 \<le> sint index \<and> nat (sint index) < m_num_elements s
      then Inr (m_array s ! nat (sint index)) else Inl OutOfRange)
   \<and> (sint index < 0 \<longrightarrow> subscript s index = Inl OutOfRange)"
  by (cases "0 \<le> sint index") (auto simp: subscript_def int_to_size_t_nonneg)

theorem subscript_range_witness:
  "sint (- 7654 :: 32 word) < 0
   \<and> subscript \<lparr>m_array = [10, 30, 20, 0 :: nat], m_size = 4, m_num_elements = 3\<rparr> (- 7654)
       = Inl OutOfRange
   \<and> subscript \<lparr>m_array = [10, 30, 20, 0 :: nat], m_size = 4, m_num_elements = 3\<rparr> 3
       = Inl OutOfRange
   \<and> subscript \<lparr>m_array = [10, 30, 20, 0 :: nat], m_size = 4, m_num_elements = 3\<rparr> 1
       = Inr 30"
  using subscript_range [of "\<lparr>m_array = [10, 30, 20, 0 :: nat], m_size = 4, m_num_elements = 3\<rparr>" "- 7654"]
    subscript_range [of "\<lparr>m_array = [10, 30, 20, 0 :: nat], m_size = 4, m_num_elements = 3\<rparr>" 3]
    subscript_range [of "\<lparr>m_array = [10, 30, 20, 0 :: nat], m_size = 4, m_num_elements = 3\<rparr>" 1]
  by simp

section \<open>add\<close>

lemma add_contained:
  "contains equal s v \<Longrightarrow> add equal al dflt s v = (Inr False, s)"
  by (simp add: add_def)

lemma add_appends:
  assumes "valid s" and "\<not> contains equal s v"
    and "m_num_elements s = m_size s \<longrightarrow> al (if m_size s > 0 then m_size s * 2 else 1)"
  shows "\<exists>s'. add equal al dflt s v = (Inr True, s')
      \<and> m_num_elements s' = m_num_elements s + 1
      \<and> m_array s' ! m_num_elements s = v
      \<and> elements s' = elements s @ [v]
      \<and> m_size s' = (if m_num_elements s = m_size s
                      then (if m_size s > 0 then m_size s * 2 else 1) else m_size s)
      \<and> valid s'"
proof -
  note h = assms(2,3)
  let ?n = "m_num_elements s"
  show ?thesis
  proof (cases "?n = m_size s")
    case False
    then have lt: "?n < length (m_array s)"
      using assms by (simp add: valid_def)
    have "add equal al dflt s v =
        (Inr True, s\<lparr>m_array := (m_array s)[?n := v], m_num_elements := ?n + 1\<rparr>)"
      using h False by (simp add: add_def)
    moreover have "take (?n + 1) ((m_array s)[?n := v]) = take ?n (m_array s) @ [v]"
      using lt by (simp add: take_Suc_conv_app_nth)
    ultimately show ?thesis
      using False lt assms by (simp add: elements_def valid_def)
  next
    case True
    define ns where "ns = (if m_size s > 0 then m_size s * 2 else 1)"
    have big: "?n < ns"
      using True by (simp add: ns_def)
    have r: "resize al dflt True s =
        (Inr (), s\<lparr>m_array := elements s @ replicate (ns - ?n) dflt, m_size := ns\<rparr>)"
      using h True assms big by (intro resize_ok) (simp_all add: ns_def valid_def)
    have len: "length (elements s) = ?n"
      using assms by (simp add: elements_def valid_def)
    have a: "add equal al dflt s v =
        (Inr True, s\<lparr>m_array := (elements s @ replicate (ns - ?n) dflt)[?n := v],
                      m_size := ns, m_num_elements := ?n + 1\<rparr>)"
      using h True r by (simp add: add_def)
    have upd: "(elements s @ replicate (ns - ?n) dflt)[?n := v]
        = elements s @ v # replicate (ns - ?n - 1) dflt"
    proof -
      have "replicate (ns - ?n) dflt = dflt # replicate (ns - ?n - 1) dflt"
        using big by (cases "ns - ?n") simp_all
      then show ?thesis
        using len by (simp add: list_update_append)
    qed
    show ?thesis
      using a upd len big True by (simp add: elements_def valid_def ns_def nth_append)
  qed
qed

lemma add_fails:
  assumes "\<not> contains equal s v" and "m_num_elements s = m_size s"
    and "\<not> al (if m_size s > 0 then m_size s * 2 else 1)"
  shows "add equal al dflt s v = (Inl BadAlloc, s)"
proof -
  have "resize al dflt True s = (Inl BadAlloc, s)"
    using assms(3) by (intro resize_fail) simp
  then show ?thesis
    using assms(1,2) by (simp add: add_def)
qed

text \<open>
  Claim C3. For every Set \<open>s\<close> and value \<open>v\<close>: \<^verbatim>\<open>add(v)\<close> returns false exactly when
  \<^verbatim>\<open>contains(v)\<close> is true, and then \<open>s\<close> is unchanged. Otherwise, when the array is full
  it is first replaced by one of twice the size (of size 1 when there was none), \<open>v\<close>
  is stored at index \<^verbatim>\<open>_num_elements\<close>, the count goes up by one and true is returned:
  the occupied range is the old one followed by \<open>v\<close>. The growth is the one step that
  can throw; the append is stated for a call whose allocation, if there is one,
  succeeds, and a call whose allocation fails throws with \<open>s\<close> unchanged.
\<close>

theorem add_spec:
  assumes "valid s"
  shows "(contains equal s v \<longrightarrow> add equal al dflt s v = (Inr False, s))
    \<and> (fst (add equal al dflt s v) = Inr False \<longrightarrow> contains equal s v)
    \<and> (\<not> contains equal s v
         \<and> (m_num_elements s = m_size s \<longrightarrow> al (if m_size s > 0 then m_size s * 2 else 1))
       \<longrightarrow> (\<exists>s'. add equal al dflt s v = (Inr True, s')
              \<and> m_num_elements s' = m_num_elements s + 1
              \<and> m_array s' ! m_num_elements s = v
              \<and> elements s' = elements s @ [v]
              \<and> m_size s' = (if m_num_elements s = m_size s
                              then (if m_size s > 0 then m_size s * 2 else 1) else m_size s)
              \<and> valid s'))
    \<and> (\<not> contains equal s v \<and> m_num_elements s = m_size s
         \<and> \<not> al (if m_size s > 0 then m_size s * 2 else 1)
       \<longrightarrow> add equal al dflt s v = (Inl BadAlloc, s))"
proof (intro conjI impI)
  assume "contains equal s v"
  then show "add equal al dflt s v = (Inr False, s)"
    by (rule add_contained)
next
  assume "fst (add equal al dflt s v) = Inr False"
  then show "contains equal s v"
    by (auto simp: add_def split: if_splits prod.splits sum.splits)
next
  assume "\<not> contains equal s v \<and> m_num_elements s = m_size s
     \<and> \<not> al (if m_size s > 0 then m_size s * 2 else 1)"
  then show "add equal al dflt s v = (Inl BadAlloc, s)"
    by (intro add_fails) simp_all
next
  assume "\<not> contains equal s v
     \<and> (m_num_elements s = m_size s \<longrightarrow> al (if m_size s > 0 then m_size s * 2 else 1))"
  then show "\<exists>s'. add equal al dflt s v = (Inr True, s')
      \<and> m_num_elements s' = m_num_elements s + 1
      \<and> m_array s' ! m_num_elements s = v
      \<and> elements s' = elements s @ [v]
      \<and> m_size s' = (if m_num_elements s = m_size s
                      then (if m_size s > 0 then m_size s * 2 else 1) else m_size s)
      \<and> valid s'"
    by (intro add_appends [OF assms]) simp_all
qed

theorem add_spec_witness:
  "valid \<lparr>m_array = [1, 2, 3, 0 :: nat], m_size = 4, m_num_elements = 3\<rparr>
   \<and> contains (=) \<lparr>m_array = [1, 2, 3, 0 :: nat], m_size = 4, m_num_elements = 3\<rparr> 2
   \<and> add (=) alloc_ok 0 \<lparr>m_array = [1, 2, 3, 0 :: nat], m_size = 4, m_num_elements = 3\<rparr> 2
       = (Inr False, \<lparr>m_array = [1, 2, 3, 0], m_size = 4, m_num_elements = 3\<rparr>)
   \<and> valid \<lparr>m_array = [1, 2 :: nat], m_size = 2, m_num_elements = 2\<rparr>
   \<and> \<not> contains (=) \<lparr>m_array = [1, 2 :: nat], m_size = 2, m_num_elements = 2\<rparr> 3
   \<and> add (=) alloc_ok 0 \<lparr>m_array = [1, 2 :: nat], m_size = 2, m_num_elements = 2\<rparr> 3
       = (Inr True, \<lparr>m_array = [1, 2, 3, 0], m_size = 4, m_num_elements = 3\<rparr>)
   \<and> add (=) alloc_fail 0 \<lparr>m_array = [1, 2 :: nat], m_size = 2, m_num_elements = 2\<rparr> 3
       = (Inl BadAlloc, \<lparr>m_array = [1, 2], m_size = 2, m_num_elements = 2\<rparr>)"
  using add_spec [of "\<lparr>m_array = [1, 2, 3, 0 :: nat], m_size = 4, m_num_elements = 3\<rparr>"
      "(=)" 2 alloc_ok 0]
    add_spec [of "\<lparr>m_array = [1, 2 :: nat], m_size = 2, m_num_elements = 2\<rparr>"
      "(=)" 3 alloc_ok 0]
    add_spec [of "\<lparr>m_array = [1, 2 :: nat], m_size = 2, m_num_elements = 2\<rparr>"
      "(=)" 3 alloc_fail 0]
  by (simp add: eval_simps)

section \<open>remove\<close>

lemma first_match_iff:
  "valid s \<Longrightarrow> first_match equal s v i \<longleftrightarrow>
     (i < m_num_elements s \<and> equal (m_array s ! i) v \<and> (\<forall>j<i. \<not> equal (m_array s ! j) v))"
proof (cases "i < m_num_elements s")
  case False
  then show ?thesis by (simp add: first_match_def)
next
  case True
  assume "valid s"
  with True have "i \<le> length (m_array s)"
    by (simp add: valid_def)
  then have "list_all (\<lambda>x. \<not> equal x v) (take i (m_array s)) \<longleftrightarrow> (\<forall>j<i. \<not> equal (m_array s ! j) v)"
    by (simp add: list_all_length)
  then show ?thesis
    by (simp add: first_match_def)
qed

lemma contains_first_match:
  assumes "valid s" and "contains equal s v"
  shows "\<exists>i. first_match equal s v i"
proof -
  define P where "P = (\<lambda>k. k < m_num_elements s \<and> equal (m_array s ! k) v)"
  define i where "i = (LEAST k. P k)"
  from assms(2) obtain k where "P k"
    by (auto simp: contains_iff P_def)
  then have Pi: "P i"
    unfolding i_def by (rule LeastI)
  have "\<not> equal (m_array s ! j) v" if lt: "j < i" for j
  proof
    assume "equal (m_array s ! j) v"
    moreover from lt Pi have "j < m_num_elements s" by (simp add: P_def)
    ultimately have "P j" by (simp add: P_def)
    then have "i \<le> j" unfolding i_def by (rule Least_le)
    with lt show False by simp
  qed
  with Pi have "first_match equal s v i"
    using assms(1) by (simp add: first_match_iff P_def)
  then show ?thesis ..
qed

lemma remove_loop_none:
  "\<forall>j. i \<le> j \<and> j < m_num_elements s \<longrightarrow> \<not> equal (m_array s ! j) v
   \<Longrightarrow> remove_loop equal al dflt s v i = (Inr False, s)"
proof (induction equal al dflt s v i rule: remove_loop.induct)
  case (1 equal al dflt s v i)
  show ?case
  proof (cases "i < m_num_elements s")
    case False
    then show ?thesis by (subst remove_loop.simps) simp
  next
    case True
    then have ne: "\<not> equal (m_array s ! i) v"
      using "1.prems" by simp
    have "remove_loop equal al dflt s v i = remove_loop equal al dflt s v (i + 1)"
      using True ne by (subst remove_loop.simps) simp
    also have "\<dots> = (Inr False, s)"
      using "1.IH" [OF True ne] "1.prems" by simp
    finally show ?thesis .
  qed
qed

lemma remove_loop_first:
  "i \<le> k \<Longrightarrow> k < m_num_elements s \<Longrightarrow> equal (m_array s ! k) v
   \<Longrightarrow> \<forall>j. i \<le> j \<and> j < k \<longrightarrow> \<not> equal (m_array s ! j) v
   \<Longrightarrow> remove_loop equal al dflt s v i =
       (case (if m_num_elements (swap_remove s k) \<le> m_size s div 4
              then resize al dflt False (swap_remove s k) else (Inr (), swap_remove s k)) of
          (Inl e, s3) \<Rightarrow> (Inl e, s3)
        | (Inr u, s3) \<Rightarrow> (Inr True, s3))"
proof (induction equal al dflt s v i rule: remove_loop.induct)
  case (1 equal al dflt s v i)
  have lt: "i < m_num_elements s"
    using "1.prems" by simp
  show ?case
  proof (cases "i = k")
    case True
    then show ?thesis
      using "1.prems" lt by (subst remove_loop.simps) (simp add: swap_remove_def Let_def)
  next
    case False
    then have ik: "i + 1 \<le> k" and ne: "\<not> equal (m_array s ! i) v"
      using "1.prems" by auto
    have "remove_loop equal al dflt s v i = remove_loop equal al dflt s v (i + 1)"
      using lt ne by (subst remove_loop.simps) simp
    also have "\<dots> = (case (if m_num_elements (swap_remove s k) \<le> m_size s div 4
              then resize al dflt False (swap_remove s k) else (Inr (), swap_remove s k)) of
          (Inl e, s3) \<Rightarrow> (Inl e, s3)
        | (Inr u, s3) \<Rightarrow> (Inr True, s3))"
      using "1.IH" [OF lt ne ik] "1.prems" by simp
    finally show ?thesis .
  qed
qed

lemma remove_first_match:
  assumes "valid s" and "first_match equal s v i"
  shows "remove equal al dflt s v =
       (case (if m_num_elements (swap_remove s i) \<le> m_size s div 4
              then resize al dflt False (swap_remove s i) else (Inr (), swap_remove s i)) of
          (Inl e, s3) \<Rightarrow> (Inl e, s3)
        | (Inr u, s3) \<Rightarrow> (Inr True, s3))"
proof -
  from assms have "i < m_num_elements s" "equal (m_array s ! i) v"
    "\<forall>j. 0 \<le> j \<and> j < i \<longrightarrow> \<not> equal (m_array s ! j) v"
    by (simp_all add: first_match_iff)
  then show ?thesis
    unfolding remove_def by (intro remove_loop_first) simp_all
qed

lemma remove_not_contained:
  "\<not> contains equal s v \<Longrightarrow> remove equal al dflt s v = (Inr False, s)"
  unfolding remove_def by (rule remove_loop_none) (simp add: contains_iff)

lemma elements_swap_remove:
  assumes "valid s" and "i < m_num_elements s"
  shows "elements (swap_remove s i) = butlast ((elements s)[i := last (elements s)])"
proof -
  let ?n = "m_num_elements s" and ?xs = "m_array s"
  have n: "?n \<le> length ?xs" "0 < ?n"
    using assms by (simp_all add: valid_def)
  have l: "last (take ?n ?xs) = ?xs ! (?n - 1)"
  proof -
    have "take ?n ?xs \<noteq> []" using n by (cases ?xs) simp_all
    then have "last (take ?n ?xs) = take ?n ?xs ! (length (take ?n ?xs) - 1)"
      by (rule last_conv_nth)
    then show ?thesis using n by simp
  qed
  have "butlast ((take ?n ?xs)[i := ?xs ! (?n - 1)]) = butlast (take ?n (?xs[i := ?xs ! (?n - 1)]))"
    by (simp add: take_update_swap)
  also have "\<dots> = take (?n - 1) (?xs[i := ?xs ! (?n - 1)])"
    using n by (simp add: butlast_take)
  finally show ?thesis
    by (simp add: elements_def swap_remove_def l)
qed

lemma mset_butlast:
  "xs \<noteq> [] \<Longrightarrow> mset (butlast xs) = mset xs - {#last xs#}"
proof -
  assume "xs \<noteq> []"
  then have "xs = butlast xs @ [last xs]"
    by simp
  then have "mset xs = mset (butlast xs) + {#last xs#}"
    by (metis mset_append mset_single_iff_right mset.simps(1) mset.simps(2) union_commute add_mset_add_single)
  then show ?thesis
    by simp
qed

lemma mset_swap_remove_list:
  assumes "i < length xs"
  shows "mset (butlast (xs[i := last xs])) = mset xs - {#xs ! i#}"
proof -
  have ne: "xs \<noteq> []"
    using assms by auto
  let ?ys = "xs[i := last xs]"
  have ne': "?ys \<noteq> []"
    using ne by simp
  have l: "last ?ys = last xs"
  proof (cases "i = length xs - 1")
    case True
    then show ?thesis
      using ne assms by (simp add: last_conv_nth)
  next
    case False
    then show ?thesis
      using ne by (simp add: last_list_update)
  qed
  have "mset ?ys = add_mset (last xs) (mset xs - {#xs ! i#})"
    using assms by (rule mset_update)
  then have "mset (butlast ?ys) = add_mset (last xs) (mset xs - {#xs ! i#}) - {#last xs#}"
    using mset_butlast [OF ne'] l by simp
  then show ?thesis
    by simp
qed

lemma mset_elements_swap_remove:
  assumes "valid s" and "i < m_num_elements s"
  shows "mset (elements (swap_remove s i)) = mset (elements s) - {#m_array s ! i#}"
proof -
  have len: "i < length (elements s)"
    using assms by (simp add: length_elements)
  have "elements s ! i = m_array s ! i"
    using assms(2) by (simp add: elements_def)
  then show ?thesis
    using mset_swap_remove_list [OF len] elements_swap_remove [OF assms] by simp
qed

lemma valid_swap_remove:
  "valid s \<Longrightarrow> valid (swap_remove s i)"
  unfolding valid_def swap_remove_def by simp arith

lemma swap_remove_fields:
  "m_size (swap_remove s i) = m_size s"
  "m_num_elements (swap_remove s i) = m_num_elements s - 1"
  "length (m_array (swap_remove s i)) = length (m_array s)"
  by (simp_all add: swap_remove_def)

lemma remove_cases:
  assumes "valid s"
  obtains (absent) "remove equal al dflt s v = (Inr False, s)"
  | (kept) i where "first_match equal s v i"
      "\<not> m_num_elements s - 1 \<le> m_size s div 4"
      "remove equal al dflt s v = (Inr True, swap_remove s i)"
  | (failed) i where "first_match equal s v i"
      "m_num_elements s - 1 \<le> m_size s div 4" "\<not> al (m_size s div 2)"
      "remove equal al dflt s v = (Inl BadAlloc, swap_remove s i)"
  | (shrunk) i s' where "first_match equal s v i"
      "m_num_elements s - 1 \<le> m_size s div 4" "al (m_size s div 2)"
      "remove equal al dflt s v = (Inr True, s')"
      "m_num_elements s' = m_num_elements s - 1" "m_size s' = m_size s div 2" "valid s'"
proof (cases "contains equal s v")
  case False
  then have "remove equal al dflt s v = (Inr False, s)"
    by (rule remove_not_contained)
  then show ?thesis
    by (rule absent)
next
  case True
  from contains_first_match [OF assms True] obtain i where fm: "first_match equal s v i" ..
  note r = remove_first_match [OF assms fm, of al dflt]
  show ?thesis
  proof (cases "m_num_elements s - 1 \<le> m_size s div 4")
    case False
    then have "remove equal al dflt s v = (Inr True, swap_remove s i)"
      using r by (simp add: swap_remove_fields)
    with fm False show ?thesis
      by (rule kept)
  next
    case due: True
    show ?thesis
    proof (cases "al (m_size s div 2)")
      case False
      then have "resize al dflt False (swap_remove s i) = (Inl BadAlloc, swap_remove s i)"
        by (intro resize_fail) (simp add: swap_remove_fields)
      then have "remove equal al dflt s v = (Inl BadAlloc, swap_remove s i)"
        using r due by (simp add: swap_remove_fields)
      with fm due False show ?thesis
        by (rule failed)
    next
      case True
      have "\<exists>s'. resize al dflt False (swap_remove s i) = (Inr (), s')
          \<and> elements s' = elements (swap_remove s i)
          \<and> m_num_elements s' = m_num_elements (swap_remove s i)
          \<and> m_size s' = m_size (swap_remove s i) div 2 \<and> valid s'"
        using valid_swap_remove [OF assms, of i] due True
        by (intro resize_shrink_ok) (simp_all add: swap_remove_fields)
      then obtain s' where rs: "resize al dflt False (swap_remove s i) = (Inr (), s')"
        and p: "m_num_elements s' = m_num_elements s - 1" "m_size s' = m_size s div 2" "valid s'"
        by (auto simp: swap_remove_fields)
      have "remove equal al dflt s v = (Inr True, s')"
        using r due rs by (simp add: swap_remove_fields)
      with fm due True show ?thesis
        using p by (rule shrunk)
    qed
  qed
qed

text \<open>
  Claim C4, as the code has it. For every Set \<open>s\<close> and value \<open>v\<close>: when no occupied
  element matches \<open>v\<close>, \<^verbatim>\<open>remove(v)\<close> returns false and \<open>s\<close> is unchanged. Otherwise
  there is a first matching index \<open>i\<close>; slot \<open>i\<close> is overwritten by the element of the
  last occupied slot and the count is decremented, so that the occupied range becomes
  the old one with position \<open>i\<close> replaced by the last element and the last position
  dropped (a backfill, not a left shift): the elements are the old ones less the
  matching one. Then the shrink check runs. When the new count is above a quarter of
  the capacity, true is returned with exactly that object. When it is not and the
  allocation of the halved array succeeds, true is returned with an object of half the
  capacity and the same occupied range. When it is not and that allocation fails,
  \<^verbatim>\<open>remove\<close> returns no value: the exception leaves it, with the element taken out and
  the capacity unchanged.
\<close>

theorem remove_spec:
  assumes "valid s"
  shows "(\<not> contains equal s v \<longrightarrow> remove equal al dflt s v = (Inr False, s))
    \<and> (contains equal s v \<longrightarrow>
         (\<exists>i. first_match equal s v i
            \<and> elements (swap_remove s i) = butlast ((elements s)[i := last (elements s)])
            \<and> mset (elements (swap_remove s i)) = mset (elements s) - {#m_array s ! i#}
            \<and> (if m_num_elements s - 1 \<le> m_size s div 4
               then (if al (m_size s div 2)
                     then (\<exists>s'. remove equal al dflt s v = (Inr True, s')
                             \<and> elements s' = elements (swap_remove s i)
                             \<and> m_num_elements s' = m_num_elements s - 1
                             \<and> m_size s' = m_size s div 2
                             \<and> valid s')
                     else remove equal al dflt s v = (Inl BadAlloc, swap_remove s i)
                          \<and> m_size (swap_remove s i) = m_size s)
               else remove equal al dflt s v = (Inr True, swap_remove s i))))"
proof (intro conjI impI)
  assume "\<not> contains equal s v"
  then show "remove equal al dflt s v = (Inr False, s)"
    by (rule remove_not_contained)
next
  assume c: "contains equal s v"
  from contains_first_match [OF assms c] obtain i where fm: "first_match equal s v i" ..
  then have i: "i < m_num_elements s"
    by (simp add: first_match_def)
  note r = remove_first_match [OF assms fm, of al dflt]
  have el: "elements (swap_remove s i) = butlast ((elements s)[i := last (elements s)])"
    using assms i by (rule elements_swap_remove)
  have ms: "mset (elements (swap_remove s i)) = mset (elements s) - {#m_array s ! i#}"
    using assms i by (rule mset_elements_swap_remove)
  have rest: "if m_num_elements s - 1 \<le> m_size s div 4
       then (if al (m_size s div 2)
             then (\<exists>s'. remove equal al dflt s v = (Inr True, s')
                     \<and> elements s' = elements (swap_remove s i)
                     \<and> m_num_elements s' = m_num_elements s - 1
                     \<and> m_size s' = m_size s div 2
                     \<and> valid s')
             else remove equal al dflt s v = (Inl BadAlloc, swap_remove s i)
                  \<and> m_size (swap_remove s i) = m_size s)
       else remove equal al dflt s v = (Inr True, swap_remove s i)"
  proof (cases "m_num_elements s - 1 \<le> m_size s div 4")
    case False
    then show ?thesis
      using r by (simp add: swap_remove_fields)
  next
    case True
    show ?thesis
    proof (cases "al (m_size s div 2)")
      case ok: True
      have "\<exists>s'. resize al dflt False (swap_remove s i) = (Inr (), s')
          \<and> elements s' = elements (swap_remove s i)
          \<and> m_num_elements s' = m_num_elements (swap_remove s i)
          \<and> m_size s' = m_size (swap_remove s i) div 2 \<and> valid s'"
        using valid_swap_remove [OF assms, of i] True ok
        by (intro resize_shrink_ok) (simp_all add: swap_remove_fields)
      then obtain s' where rs: "resize al dflt False (swap_remove s i) = (Inr (), s')"
        and p: "elements s' = elements (swap_remove s i)"
          "m_num_elements s' = m_num_elements (swap_remove s i)"
          "m_size s' = m_size (swap_remove s i) div 2" "valid s'"
        by blast
      have "remove equal al dflt s v = (Inr True, s')"
        using r True rs by (simp add: swap_remove_fields)
      with p have "\<exists>s'. remove equal al dflt s v = (Inr True, s')
           \<and> elements s' = elements (swap_remove s i)
           \<and> m_num_elements s' = m_num_elements s - 1
           \<and> m_size s' = m_size s div 2
           \<and> valid s'"
        by (simp add: swap_remove_fields)
      then show ?thesis
        using True ok by simp
    next
      case False
      then have "resize al dflt False (swap_remove s i) = (Inl BadAlloc, swap_remove s i)"
        by (intro resize_fail) (simp add: swap_remove_fields)
      then have "remove equal al dflt s v = (Inl BadAlloc, swap_remove s i)"
        using r True by (simp add: swap_remove_fields)
      then show ?thesis
        using True False by (simp add: swap_remove_fields)
    qed
  qed
  from fm el ms rest
  show "\<exists>i. first_match equal s v i
      \<and> elements (swap_remove s i) = butlast ((elements s)[i := last (elements s)])
      \<and> mset (elements (swap_remove s i)) = mset (elements s) - {#m_array s ! i#}
      \<and> (if m_num_elements s - 1 \<le> m_size s div 4
         then (if al (m_size s div 2)
               then (\<exists>s'. remove equal al dflt s v = (Inr True, s')
                       \<and> elements s' = elements (swap_remove s i)
                       \<and> m_num_elements s' = m_num_elements s - 1
                       \<and> m_size s' = m_size s div 2
                       \<and> valid s')
               else remove equal al dflt s v = (Inl BadAlloc, swap_remove s i)
                    \<and> m_size (swap_remove s i) = m_size s)
         else remove equal al dflt s v = (Inr True, swap_remove s i))"
    by (intro exI [of _ i] conjI)
qed

theorem remove_spec_witness:
  "valid \<lparr>m_array = [10, 20, 30, 0 :: nat], m_size = 4, m_num_elements = 3\<rparr>
   \<and> contains (=) \<lparr>m_array = [10, 20, 30, 0 :: nat], m_size = 4, m_num_elements = 3\<rparr> 10
   \<and> remove (=) alloc_ok 0 \<lparr>m_array = [10, 20, 30, 0 :: nat], m_size = 4, m_num_elements = 3\<rparr> 10
       = (Inr True, \<lparr>m_array = [30, 20, 30, 0], m_size = 4, m_num_elements = 2\<rparr>)
   \<and> \<not> contains (=) \<lparr>m_array = [10, 20, 30, 0 :: nat], m_size = 4, m_num_elements = 3\<rparr> 99
   \<and> remove (=) alloc_ok 0 \<lparr>m_array = [10, 20, 30, 0 :: nat], m_size = 4, m_num_elements = 3\<rparr> 99
       = (Inr False, \<lparr>m_array = [10, 20, 30, 0], m_size = 4, m_num_elements = 3\<rparr>)
   \<and> valid \<lparr>m_array = [10, 20, 30, 0 :: nat], m_size = 4, m_num_elements = 2\<rparr>
   \<and> contains (=) \<lparr>m_array = [10, 20, 30, 0 :: nat], m_size = 4, m_num_elements = 2\<rparr> 10
   \<and> remove (=) alloc_ok 0 \<lparr>m_array = [10, 20, 30, 0 :: nat], m_size = 4, m_num_elements = 2\<rparr> 10
       = (Inr True, \<lparr>m_array = [20, 0], m_size = 2, m_num_elements = 1\<rparr>)
   \<and> remove (=) alloc_fail 0 \<lparr>m_array = [10, 20, 30, 0 :: nat], m_size = 4, m_num_elements = 2\<rparr> 10
       = (Inl BadAlloc, \<lparr>m_array = [20, 20, 30, 0], m_size = 4, m_num_elements = 1\<rparr>)"
  using remove_spec [of "\<lparr>m_array = [10, 20, 30, 0 :: nat], m_size = 4, m_num_elements = 3\<rparr>"
      "(=)" 10 alloc_ok 0]
    remove_spec [of "\<lparr>m_array = [10, 20, 30, 0 :: nat], m_size = 4, m_num_elements = 3\<rparr>"
      "(=)" 99 alloc_ok 0]
    remove_spec [of "\<lparr>m_array = [10, 20, 30, 0 :: nat], m_size = 4, m_num_elements = 2\<rparr>"
      "(=)" 10 alloc_ok 0]
    remove_spec [of "\<lparr>m_array = [10, 20, 30, 0 :: nat], m_size = 4, m_num_elements = 2\<rparr>"
      "(=)" 10 alloc_fail 0]
  by (simp add: eval_remove)

text \<open>
  The Set left by \<^verbatim>\<open>add(10); add(20); add(30); remove(30)\<close> has two elements in four
  slots and contains 10. \<^verbatim>\<open>remove(10)\<close> finds it at index 0, takes the count to one, a
  quarter of the capacity, and calls \<^verbatim>\<open>resize(false)\<close>; when that allocation fails the
  call ends with the exception: a match was found and true is not returned.
\<close>

theorem remove_found_not_true:
  "contains (=) \<lparr>m_array = [10, 20, 30, 0 :: nat], m_size = 4, m_num_elements = 2\<rparr> 10
   \<and> remove (=) alloc_fail 0
        \<lparr>m_array = [10, 20, 30, 0 :: nat], m_size = 4, m_num_elements = 2\<rparr> 10
       = (Inl BadAlloc, \<lparr>m_array = [20, 20, 30, 0], m_size = 4, m_num_elements = 1\<rparr>)
   \<and> fst (remove (=) alloc_fail 0
        \<lparr>m_array = [10, 20, 30, 0 :: nat], m_size = 4, m_num_elements = 2\<rparr> 10) \<noteq> Inr True"
  by (simp add: eval_simps)

text \<open>
  Claim C1, as the code has it. When the allocation fails during the shrink that follows a
  removal, the removal has taken effect (the matching slot holds the former last
  element, the count is one less, the elements are the old ones less the matching one)
  and the array and its capacity are the ones from before the shrink; \<^verbatim>\<open>resize\<close>
  rethrows and \<^verbatim>\<open>remove\<close> has no handler, so the exception reaches the caller and
  \<^verbatim>\<open>remove\<close> returns no value.
\<close>

theorem remove_shrink_failure:
  assumes "valid s" and "contains equal s v"
    and "m_num_elements s - 1 \<le> m_size s div 4" and "\<not> al (m_size s div 2)"
  shows "\<exists>i. first_match equal s v i
    \<and> remove equal al dflt s v = (Inl BadAlloc, swap_remove s i)
    \<and> elements (swap_remove s i) = butlast ((elements s)[i := last (elements s)])
    \<and> mset (elements (swap_remove s i)) = mset (elements s) - {#m_array s ! i#}
    \<and> m_num_elements (swap_remove s i) = m_num_elements s - 1
    \<and> m_size (swap_remove s i) = m_size s
    \<and> length (m_array (swap_remove s i)) = length (m_array s)"
proof -
  from contains_first_match [OF assms(1,2)] obtain i where fm: "first_match equal s v i" ..
  then have i: "i < m_num_elements s"
    by (simp add: first_match_def)
  have "resize al dflt False (swap_remove s i) = (Inl BadAlloc, swap_remove s i)"
    using assms(4) by (intro resize_fail) (simp add: swap_remove_fields)
  then have r: "remove equal al dflt s v = (Inl BadAlloc, swap_remove s i)"
    using remove_first_match [OF assms(1) fm, of al dflt] assms(3)
    by (simp add: swap_remove_fields)
  have el: "elements (swap_remove s i) = butlast ((elements s)[i := last (elements s)])"
    using assms(1) i by (rule elements_swap_remove)
  have ms: "mset (elements (swap_remove s i)) = mset (elements s) - {#m_array s ! i#}"
    using assms(1) i by (rule mset_elements_swap_remove)
  from fm r el ms show ?thesis
    by (intro exI [of _ i] conjI) (simp_all add: swap_remove_fields)
qed

theorem remove_shrink_failure_witness:
  "valid \<lparr>m_array = [1, 2, 3, 0 :: nat], m_size = 4, m_num_elements = 2\<rparr>
   \<and> contains (=) \<lparr>m_array = [1, 2, 3, 0 :: nat], m_size = 4, m_num_elements = 2\<rparr> 2
   \<and> (2 :: nat) - 1 \<le> 4 div 4
   \<and> \<not> alloc_fail (4 div 2)
   \<and> remove (=) alloc_fail 0 \<lparr>m_array = [1, 2, 3, 0 :: nat], m_size = 4, m_num_elements = 2\<rparr> 2
       = (Inl BadAlloc, \<lparr>m_array = [1, 2, 3, 0], m_size = 4, m_num_elements = 1\<rparr>)"
  using remove_shrink_failure
    [of "\<lparr>m_array = [1, 2, 3, 0 :: nat], m_size = 4, m_num_elements = 2\<rparr>" "(=)" 2 alloc_fail 0]
  by (simp add: eval_remove)

text \<open>
  The Set left by \<^verbatim>\<open>add(1); add(2); add(3); remove(3)\<close> has two elements in four slots.
  \<^verbatim>\<open>remove(2)\<close> takes the count to one, which is a quarter of the capacity, and calls
  \<^verbatim>\<open>resize(false)\<close>; when that allocation fails the call ends with the exception, not
  with \<^verbatim>\<open>true\<close>.
\<close>

theorem remove_shrink_failure_not_true:
  "fst (remove (=) alloc_fail 0
          \<lparr>m_array = [1, 2, 3, 0 :: nat], m_size = 4, m_num_elements = 2\<rparr> 2) = Inl BadAlloc
   \<and> fst (remove (=) alloc_fail 0
          \<lparr>m_array = [1, 2, 3, 0 :: nat], m_size = 4, m_num_elements = 2\<rparr> 2) \<noteq> Inr True"
  by (simp add: eval_simps)

section \<open>Equality of two Sets\<close>

lemma equals_loop_iff:
  "equals_loop equal s other i \<longleftrightarrow>
     (\<forall>k. i \<le> k \<and> k < m_num_elements s \<longrightarrow> contains equal s (m_array other ! k))"
proof (induction equal s other i rule: equals_loop.induct)
  case (1 equal s other i)
  show ?case
  proof (cases "i < m_num_elements s")
    case False
    then show ?thesis by (subst equals_loop.simps) auto
  next
    case True
    show ?thesis
    proof (cases "contains equal s (m_array other ! i)")
      case False
      have "\<not> equals_loop equal s other i"
        using True False by (subst equals_loop.simps) simp
      moreover have "\<not> (\<forall>k. i \<le> k \<and> k < m_num_elements s
          \<longrightarrow> contains equal s (m_array other ! k))"
        using True False by blast
      ultimately show ?thesis by simp
    next
      case c: True
      have "equals_loop equal s other i = equals_loop equal s other (i + 1)"
        using True c by (subst equals_loop.simps) simp
      also have "\<dots> \<longleftrightarrow> (\<forall>k. i + 1 \<le> k \<and> k < m_num_elements s
          \<longrightarrow> contains equal s (m_array other ! k))"
        using "1.IH" True c by simp
      also have "\<dots> \<longleftrightarrow> (\<forall>k. i \<le> k \<and> k < m_num_elements s
          \<longrightarrow> contains equal s (m_array other ! k))"
      proof (intro iffI allI impI)
        fix k
        assume a: "\<forall>k. i + 1 \<le> k \<and> k < m_num_elements s
            \<longrightarrow> contains equal s (m_array other ! k)"
          and k: "i \<le> k \<and> k < m_num_elements s"
        show "contains equal s (m_array other ! k)"
        proof (cases "k = i")
          case True
          then show ?thesis using c by simp
        next
          case False
          then have "i + 1 \<le> k" using k by simp
          then show ?thesis using a k by blast
        qed
      next
        fix k
        assume a: "\<forall>k. i \<le> k \<and> k < m_num_elements s
            \<longrightarrow> contains equal s (m_array other ! k)"
          and k: "i + 1 \<le> k \<and> k < m_num_elements s"
        then have "i \<le> k \<and> k < m_num_elements s" by simp
        then show "contains equal s (m_array other ! k)" using a by blast
      qed
      finally show ?thesis .
    qed
  qed
qed

lemma equals_iff:
  assumes "valid other"
  shows "equals equal s other \<longleftrightarrow>
     (m_num_elements s = m_num_elements other
      \<and> (\<forall>x \<in> set (elements other). contains equal s x))"
proof (cases "m_num_elements s = m_num_elements other")
  case False
  then show ?thesis by (simp add: equals_def)
next
  case True
  have "equals equal s other \<longleftrightarrow>
      (\<forall>k < m_num_elements other. contains equal s (m_array other ! k))"
    using True by (simp add: equals_def equals_loop_iff)
  also have "\<dots> \<longleftrightarrow> (\<forall>x \<in> nth (m_array other) ` {0..<m_num_elements other}. contains equal s x)"
    by auto
  finally show ?thesis
    using True by (simp add: set_elements [OF assms])
qed

text \<open>
  Claim C5. For every two Sets \<open>a\<close> and \<open>b\<close> compared with the same \<open>equal\<close>, \<^verbatim>\<open>a == b\<close>
  is true exactly when the counts are equal and every element of \<open>b\<close> is found by
  \<^verbatim>\<open>a.contains\<close>. The answer depends on the elements only, not on their order in either
  array: rearranging the occupied slots of \<open>a\<close> or of \<open>b\<close> leaves it unchanged.
\<close>

theorem equals_spec:
  assumes "valid a" and "valid b"
  shows "(equals equal a b \<longleftrightarrow>
            m_num_elements a = m_num_elements b
            \<and> (\<forall>x \<in> set (elements b). contains equal a x))
    \<and> (\<forall>a' b'. valid a' \<and> valid b'
           \<and> mset (elements a') = mset (elements a)
           \<and> mset (elements b') = mset (elements b)
         \<longrightarrow> equals equal a' b' = equals equal a b)"
proof (intro conjI allI impI)
  show "equals equal a b \<longleftrightarrow>
      m_num_elements a = m_num_elements b \<and> (\<forall>x \<in> set (elements b). contains equal a x)"
    using assms(2) by (rule equals_iff)
next
  fix a' b' :: "'a SetObj"
  assume h: "valid a' \<and> valid b' \<and> mset (elements a') = mset (elements a)
      \<and> mset (elements b') = mset (elements b)"
  then have sa: "set (elements a') = set (elements a)"
    and sb: "set (elements b') = set (elements b)"
    by (auto dest: mset_eq_setD)
  from h have "length (elements a') = length (elements a)"
    and "length (elements b') = length (elements b)"
    by (auto dest: mset_eq_length)
  then have n: "m_num_elements a' = m_num_elements a" "m_num_elements b' = m_num_elements b"
    using h assms by (simp_all add: length_elements)
  have c: "contains equal a' x = contains equal a x" for x
    using h assms(1) sa by (simp add: contains_elements)
  show "equals equal a' b' = equals equal a b"
    using h assms(2) n sb c by (simp add: equals_iff)
qed

theorem equals_spec_witness:
  "valid \<lparr>m_array = [1, 2, 3, 0 :: nat], m_size = 4, m_num_elements = 3\<rparr>
   \<and> valid \<lparr>m_array = [3, 1, 2 :: nat], m_size = 3, m_num_elements = 3\<rparr>
   \<and> equals (=) \<lparr>m_array = [1, 2, 3, 0 :: nat], m_size = 4, m_num_elements = 3\<rparr>
        \<lparr>m_array = [3, 1, 2], m_size = 3, m_num_elements = 3\<rparr>
   \<and> list_all (contains (=) \<lparr>m_array = [1, 2, 3, 0 :: nat], m_size = 4, m_num_elements = 3\<rparr>)
        (elements \<lparr>m_array = [3, 1, 2], m_size = 3, m_num_elements = 3\<rparr>)
   \<and> valid \<lparr>m_array = [2, 3, 1, 7 :: nat], m_size = 4, m_num_elements = 3\<rparr>
   \<and> mset (elements \<lparr>m_array = [2, 3, 1, 7 :: nat], m_size = 4, m_num_elements = 3\<rparr>)
       = mset (elements \<lparr>m_array = [1, 2, 3, 0 :: nat], m_size = 4, m_num_elements = 3\<rparr>)
   \<and> equals (=) \<lparr>m_array = [2, 3, 1, 7 :: nat], m_size = 4, m_num_elements = 3\<rparr>
        \<lparr>m_array = [3, 1, 2], m_size = 3, m_num_elements = 3\<rparr>"
proof -
  let ?a = "\<lparr>m_array = [1, 2, 3, 0 :: nat], m_size = 4, m_num_elements = 3\<rparr>"
  let ?b = "\<lparr>m_array = [3, 1, 2 :: nat], m_size = 3, m_num_elements = 3\<rparr>"
  let ?a' = "\<lparr>m_array = [2, 3, 1, 7 :: nat], m_size = 4, m_num_elements = 3\<rparr>"
  have v: "valid ?a" "valid ?b" "valid ?a'"
    by (simp_all add: valid_def)
  have m: "mset (elements ?a') = mset (elements ?a)"
    by (simp add: elements_def)
  note t = equals_spec [OF v(1,2), of "(=)"]
  have e: "equals (=) ?a ?b" and l: "list_all (contains (=) ?a) (elements ?b)"
    using t by (simp_all add: eval_simps)
  have "equals (=) ?a' ?b = equals (=) ?a ?b"
    using t v m by blast
  with e v m l show ?thesis
    by simp
qed

section \<open>Textual representation\<close>

lemma digit_value_digit_char:
  "k < 10 \<Longrightarrow> digit_value (digit_char k) = k"
proof -
  assume "k < 10"
  then have "k < Suc (Suc (Suc (Suc (Suc (Suc (Suc (Suc (Suc (Suc 0)))))))))"
    by simp
  then consider "k = 0" | "k = 1" | "k = 2" | "k = 3" | "k = 4" | "k = 5" | "k = 6"
    | "k = 7" | "k = 8" | "k = 9"
    unfolding less_Suc_eq by fastforce
  then show ?thesis
    by cases (simp_all add: digit_value_def digit_char_def)
qed

lemma dec_value_append:
  "dec_value a (cs @ [c]) = dec_value a cs * 10 + digit_value c"
  by (induction cs arbitrary: a) simp_all

lemma dec_value_show_size_t:
  "dec_value 0 (show_size_t n) = n"
proof (induction n rule: show_size_t.induct)
  case (1 n)
  show ?case
  proof (cases "n < 10")
    case True
    then show ?thesis
      by (subst show_size_t.simps) (simp add: digit_value_digit_char)
  next
    case False
    have "dec_value 0 (show_size_t n) =
        dec_value 0 (show_size_t (n div 10)) * 10 + digit_value (digit_char (n mod 10))"
      using False by (subst show_size_t.simps) (simp add: dec_value_append)
    also have "\<dots> = n div 10 * 10 + n mod 10"
      using "1.IH" [OF False] by (simp add: digit_value_digit_char)
    finally show ?thesis
      by simp
  qed
qed

lemma print_loop_eq:
  "i \<le> m_num_elements s \<Longrightarrow> m_num_elements s \<le> length (m_array s) \<Longrightarrow>
   print_loop show_elem os s i =
     os @ concat (map (\<lambda>e. '' ('' @ show_elem e @ '')'')
                   (drop i (take (m_num_elements s) (m_array s))))"
proof (induction show_elem os s i rule: print_loop.induct)
  case (1 show_elem os s i)
  let ?n = "m_num_elements s"
  show ?case
  proof (cases "i < ?n")
    case False
    then show ?thesis
      using "1.prems" by (subst print_loop.simps) simp
  next
    case True
    have d: "drop i (take ?n (m_array s)) = m_array s ! i # drop (i + 1) (take ?n (m_array s))"
      using True "1.prems" by (simp add: Cons_nth_drop_Suc [symmetric])
    have "print_loop show_elem os s i =
        print_loop show_elem (os @ '' ('' @ show_elem (m_array s ! i) @ '')'') s (i + 1)"
      using True by (subst print_loop.simps) simp
    also have "\<dots> = (os @ '' ('' @ show_elem (m_array s ! i) @ '')'')
        @ concat (map (\<lambda>e. '' ('' @ show_elem e @ '')'') (drop (i + 1) (take ?n (m_array s))))"
      using "1.IH" [OF True] True "1.prems" by simp
    finally show ?thesis
      by (simp add: d)
  qed
qed

text \<open>
  Claim C9. For every Set, the text written by \<^verbatim>\<open>operator<<\<close> is the decimal count (a
  numeral whose base-ten value is the count) followed,
  for each occupied element in iteration order, by a space, an opening parenthesis, the
  element's own text and a closing parenthesis; for an empty Set it is the text \<open>0\<close>.
\<close>

theorem print_Set_spec:
  assumes "valid s"
  shows "print_Set show_elem os s =
       os @ show_size_t (m_num_elements s)
          @ concat (map (\<lambda>e. '' ('' @ show_elem e @ '')'') (elements s))
    \<and> dec_value 0 (show_size_t (m_num_elements s)) = m_num_elements s
    \<and> (m_num_elements s = 0 \<longrightarrow> print_Set show_elem [] s = ''0'')"
proof -
  have n: "m_num_elements s \<le> length (m_array s)"
    using assms by (simp add: valid_def)
  have p: "print_Set show_elem os s =
       os @ show_size_t (m_num_elements s)
          @ concat (map (\<lambda>e. '' ('' @ show_elem e @ '')'') (elements s))" for os
    using n by (simp add: print_Set_def print_loop_eq elements_def)
  have "show_size_t 0 = ''0''"
    by (subst show_size_t.simps) (simp add: digit_char_def)
  then have "m_num_elements s = 0 \<longrightarrow> print_Set show_elem [] s = ''0''"
    by (simp add: p elements_def)
  with p show ?thesis
    by (simp add: dec_value_show_size_t)
qed

theorem print_Set_spec_witness:
  "valid \<lparr>m_array = [''b'', ''b''], m_size = 2, m_num_elements = 1\<rparr>
   \<and> print_Set show_string [] \<lparr>m_array = [''b'', ''b''], m_size = 2, m_num_elements = 1\<rparr>
       = ''1 (b)''
   \<and> m_num_elements (Set_default :: string SetObj) = 0
   \<and> print_Set show_string [] (Set_default :: string SetObj) = ''0''
   \<and> valid \<lparr>m_array = replicate 12 (7 :: nat), m_size = 12, m_num_elements = 12\<rparr>
   \<and> take 2 (print_Set show_size_t []
         \<lparr>m_array = replicate 12 (7 :: nat), m_size = 12, m_num_elements = 12\<rparr>) = ''12''"
  using print_Set_spec [of "\<lparr>m_array = [''b'', ''b''], m_size = 2, m_num_elements = 1\<rparr>" show_string "[]"]
    print_Set_spec [of "Set_default :: string SetObj" show_string "[]"]
    print_Set_spec [of "\<lparr>m_array = replicate 12 (7 :: nat), m_size = 12, m_num_elements = 12\<rparr>"
      show_size_t "[]"]
  by (simp add: eval_simps show_size_t.simps digit_char_def show_string_def)

section \<open>Union and intersection\<close>

lemma unique_nth:
  "unique equal xs \<Longrightarrow> j < i \<Longrightarrow> i < length xs \<Longrightarrow>
   \<not> equal (xs ! j) (xs ! i) \<and> \<not> equal (xs ! i) (xs ! j)"
proof (induction xs arbitrary: i j)
  case Nil
  then show ?case by simp
next
  case (Cons x xs)
  from Cons.prems obtain i' where i: "i = Suc i'"
    by (cases i) simp_all
  show ?case
  proof (cases j)
    case 0
    have "xs ! i' \<in> set xs"
      using Cons.prems i by simp
    then show ?thesis
      using Cons.prems(1) 0 i by (simp add: list_all_iff)
  next
    case (Suc j')
    then show ?thesis
      using Cons.IH [of j' i'] Cons.prems i by simp
  qed
qed

lemma unique_earlier:
  assumes "valid s" and "unique equal (elements s)" and "i < m_num_elements s"
    and "y \<in> set (take i (elements s))"
  shows "\<not> equal y (m_array s ! i)"
proof -
  from assms(4) obtain j where j: "j < length (take i (elements s))"
    and y: "y = take i (elements s) ! j"
    by (auto simp: in_set_conv_nth)
  have len: "length (elements s) = m_num_elements s"
    using assms(1) by (rule length_elements)
  have ji: "j < i"
    using j by simp
  have "\<not> equal (elements s ! j) (elements s ! i)"
    using unique_nth [OF assms(2) ji] assms(3) len by simp
  moreover have "elements s ! i = m_array s ! i"
    using assms(3) by (simp add: elements_def)
  moreover have "y = elements s ! j"
    using y ji by simp
  ultimately show ?thesis
    by simp
qed

lemma Set_copy_ok:
  assumes "valid a" and "al (m_size a)"
  shows "\<exists>c. Set_copy al dflt a = Inr c \<and> elements c = elements a
    \<and> m_size c = m_size a \<and> m_num_elements c = m_num_elements a \<and> valid c"
proof -
  let ?n = "m_num_elements a"
  have n: "?n \<le> m_size a" "?n \<le> length (m_array a)"
    using assms(1) by (simp_all add: valid_def)
  then have "copy_loop (replicate (m_size a) dflt) (m_array a) ?n 0 =
      take ?n (m_array a) @ drop ?n (replicate (m_size a) dflt)"
    by (simp add: copy_loop_0)
  then show ?thesis
    using assms(2) n by (simp add: Set_copy_def new_array_def elements_def valid_def)
qed

lemma plus_loop_inv:
  "valid new_set \<Longrightarrow> i \<le> m_num_elements b \<Longrightarrow>
    elements new_set = elements a @ filter (\<lambda>x. \<not> contains equal a x) (take i (elements b)) \<Longrightarrow>
    valid a \<Longrightarrow> valid b \<Longrightarrow> unique equal (elements b) \<Longrightarrow> \<forall>n. al n \<Longrightarrow>
    \<exists>r. plus_loop equal al dflt new_set b i = Inr r \<and> valid r
      \<and> elements r = elements a @ filter (\<lambda>x. \<not> contains equal a x) (elements b)"
proof (induction equal al dflt new_set b i rule: plus_loop.induct)
  case (1 equal al dflt new_set b i)
  note IH = "1.IH" and ns = "1.prems"(1) and le = "1.prems"(2) and inv = "1.prems"(3)
  note a = "1.prems"(4) and b = "1.prems"(5) and u = "1.prems"(6) and al = "1.prems"(7)
  let ?keep = "\<lambda>x. \<not> contains equal a x"
  show ?case
  proof (cases "i < m_num_elements b")
    case False
    then have "i = m_num_elements b"
      using le by simp
    then have "take i (elements b) = elements b"
      by (simp add: elements_def)
    moreover have "plus_loop equal al dflt new_set b i = Inr new_set"
      using False by (subst plus_loop.simps) simp
    ultimately show ?thesis
      using ns inv by simp
  next
    case True
    let ?v = "m_array b ! i"
    have tk: "take (i + 1) (elements b) = take i (elements b) @ [?v]"
      using b True by (rule take_Suc_elements)
    have old: "\<not> equal y ?v" if "y \<in> set (take i (elements b))" for y
      using b u True that by (rule unique_earlier)
    have c: "contains equal new_set ?v \<longleftrightarrow> contains equal a ?v"
      using old by (auto simp: contains_elements [OF ns] contains_elements [OF a] inv)
    show ?thesis
    proof (cases "contains equal a ?v")
      case True
      then have ad: "add equal al dflt new_set ?v = (Inr False, new_set)"
        using c by (simp add: add_contained)
      have inv': "elements new_set = elements a @ filter ?keep (take (i + 1) (elements b))"
        using inv tk True by simp
      have "plus_loop equal al dflt new_set b i = plus_loop equal al dflt new_set b (i + 1)"
        using \<open>i < m_num_elements b\<close> ad by (subst plus_loop.simps) simp
      moreover have "\<exists>r. plus_loop equal al dflt new_set b (i + 1) = Inr r \<and> valid r
          \<and> elements r = elements a @ filter ?keep (elements b)"
        using \<open>i < m_num_elements b\<close> ns inv' a b u al
        by (intro IH [of "Inr False" new_set False, OF _ ad [symmetric] refl]) simp_all
      ultimately show ?thesis
        by simp
    next
      case False
      then have nc: "\<not> contains equal new_set ?v"
        using c by simp
      from add_appends [OF ns nc, of al dflt] al
      obtain s' where ad: "add equal al dflt new_set ?v = (Inr True, s')"
        and el: "elements s' = elements new_set @ [?v]" and v': "valid s'"
        by auto
      have inv': "elements s' = elements a @ filter ?keep (take (i + 1) (elements b))"
        using el inv tk False by simp
      have "plus_loop equal al dflt new_set b i = plus_loop equal al dflt s' b (i + 1)"
        using \<open>i < m_num_elements b\<close> ad by (subst plus_loop.simps) simp
      moreover have "\<exists>r. plus_loop equal al dflt s' b (i + 1) = Inr r \<and> valid r
          \<and> elements r = elements a @ filter ?keep (elements b)"
        using \<open>i < m_num_elements b\<close> v' inv' a b u al
        by (intro IH [of "Inr True" s' True, OF _ ad [symmetric] refl]) simp_all
      ultimately show ?thesis
        by simp
    qed
  qed
qed

lemma minus_loop_inv:
  "valid new_set \<Longrightarrow> i \<le> m_num_elements a \<Longrightarrow>
    elements new_set = filter (contains equal b) (take i (elements a)) \<Longrightarrow>
    valid a \<Longrightarrow> unique equal (elements a) \<Longrightarrow> \<forall>n. al n \<Longrightarrow>
    \<exists>r. minus_loop equal al dflt a b new_set i = Inr r \<and> valid r
      \<and> elements r = filter (contains equal b) (elements a)"
proof (induction equal al dflt a b new_set i rule: minus_loop.induct)
  case (1 equal al dflt a b new_set i)
  note IH = "1.IH" and ns = "1.prems"(1) and le = "1.prems"(2) and inv = "1.prems"(3)
  note a = "1.prems"(4) and u = "1.prems"(5) and al = "1.prems"(6)
  show ?case
  proof (cases "i < m_num_elements a")
    case False
    then have "i = m_num_elements a"
      using le by simp
    then have "take i (elements a) = elements a"
      by (simp add: elements_def)
    moreover have "minus_loop equal al dflt a b new_set i = Inr new_set"
      using False by (subst minus_loop.simps) simp
    ultimately show ?thesis
      using ns inv by simp
  next
    case lt: True
    let ?v = "m_array a ! i"
    have tk: "take (i + 1) (elements a) = take i (elements a) @ [?v]"
      using a lt by (rule take_Suc_elements)
    show ?thesis
    proof (cases "contains equal b ?v")
      case False
      have inv': "elements new_set = filter (contains equal b) (take (i + 1) (elements a))"
        using inv tk False by simp
      have "minus_loop equal al dflt a b new_set i = minus_loop equal al dflt a b new_set (i + 1)"
        using lt False by (subst minus_loop.simps) simp
      moreover have "\<exists>r. minus_loop equal al dflt a b new_set (i + 1) = Inr r \<and> valid r
          \<and> elements r = filter (contains equal b) (elements a)"
        using lt ns inv' a u al by (intro IH(2) [OF lt False]) simp_all
      ultimately show ?thesis
        by simp
    next
      case True
      have old: "\<not> equal y ?v" if "y \<in> set (take i (elements a))" for y
        using a u lt that by (rule unique_earlier)
      have nc: "\<not> contains equal new_set ?v"
        using old by (auto simp: contains_elements [OF ns] inv)
      from add_appends [OF ns nc, of al dflt] al
      obtain s' where ad: "add equal al dflt new_set ?v = (Inr True, s')"
        and el: "elements s' = elements new_set @ [?v]" and v': "valid s'"
        by auto
      have inv': "elements s' = filter (contains equal b) (take (i + 1) (elements a))"
        using el inv tk True by simp
      have "minus_loop equal al dflt a b new_set i = minus_loop equal al dflt a b s' (i + 1)"
        using lt True ad by (subst minus_loop.simps) simp
      moreover have "\<exists>r. minus_loop equal al dflt a b s' (i + 1) = Inr r \<and> valid r
          \<and> elements r = filter (contains equal b) (elements a)"
        using lt v' inv' a u al
        by (intro IH(1) [of "Inr True" s' True, OF lt True ad [symmetric] refl]) simp_all
      ultimately show ?thesis
        by simp
    qed
  qed
qed

text \<open>
  Claim C7. For every two Sets \<open>a\<close> and \<open>b\<close>, \<^verbatim>\<open>a + b\<close> is their union: the result starts
  as a copy of \<open>a\<close> and every element of \<open>b\<close> is added to it, the ones that \<open>a\<close> already
  contains being dropped. Its elements are those of \<open>a\<close> in the order of \<open>a\<close>, followed
  by the elements of \<open>b\<close> that \<open>a\<close> does not contain, in the order of \<open>b\<close>. Both operands
  are references to const that the function only reads; the result is a separate
  object. Stated for a call in which no allocation fails.
\<close>

theorem operator_plus_spec:
  assumes "valid a" and "valid b" and "unique equal (elements b)" and "\<forall>n. al n"
  shows "\<exists>r. operator_plus equal al dflt a b = Inr r
    \<and> elements r = elements a @ filter (\<lambda>x. \<not> contains equal a x) (elements b)
    \<and> valid r"
proof -
  from Set_copy_ok [OF assms(1), of al dflt] assms(4)
  obtain c where c: "Set_copy al dflt a = Inr c" and el: "elements c = elements a"
    and vc: "valid c"
    by auto
  have "\<exists>r. plus_loop equal al dflt c b 0 = Inr r \<and> valid r
      \<and> elements r = elements a @ filter (\<lambda>x. \<not> contains equal a x) (elements b)"
    using vc el assms by (intro plus_loop_inv) simp_all
  then show ?thesis
    using c by (auto simp: operator_plus_def)
qed

theorem operator_plus_spec_witness:
  "valid \<lparr>m_array = [1, 2, 3, 0 :: nat], m_size = 4, m_num_elements = 3\<rparr>
   \<and> valid \<lparr>m_array = [3, 4, 5, 0 :: nat], m_size = 4, m_num_elements = 3\<rparr>
   \<and> unique (=) (elements \<lparr>m_array = [3, 4, 5, 0 :: nat], m_size = 4, m_num_elements = 3\<rparr>)
   \<and> (\<forall>n. alloc_ok n)
   \<and> operator_plus (=) alloc_ok 0
        \<lparr>m_array = [1, 2, 3, 0 :: nat], m_size = 4, m_num_elements = 3\<rparr>
        \<lparr>m_array = [3, 4, 5, 0], m_size = 4, m_num_elements = 3\<rparr>
       = Inr \<lparr>m_array = [1, 2, 3, 4, 5, 0, 0, 0], m_size = 8, m_num_elements = 5\<rparr>"
  using operator_plus_spec
    [of "\<lparr>m_array = [1, 2, 3, 0 :: nat], m_size = 4, m_num_elements = 3\<rparr>"
        "\<lparr>m_array = [3, 4, 5, 0 :: nat], m_size = 4, m_num_elements = 3\<rparr>" "(=)" alloc_ok 0]
  by (simp add: eval_simps unique.simps Set_copy_def operator_plus_def plus_loop.simps)

text \<open>
  Claim C6. For every two Sets \<open>a\<close> and \<open>b\<close>, \<^verbatim>\<open>a - b\<close> is their intersection: the result
  holds exactly the elements of \<open>a\<close> that \<^verbatim>\<open>b.contains\<close> finds, in the order of \<open>a\<close>. Both
  operands are references to const that the function only reads; the result is a
  separate object. Stated for a call in which no allocation fails.
\<close>

theorem operator_minus_spec:
  assumes "valid a" and "valid b" and "unique equal (elements a)" and "\<forall>n. al n"
  shows "\<exists>r. operator_minus equal al dflt a b = Inr r
    \<and> elements r = filter (contains equal b) (elements a)
    \<and> valid r"
proof -
  have "valid (Set_default :: 'a SetObj)" and "elements (Set_default :: 'a SetObj) = []"
    by (simp_all add: Set_default_def valid_def elements_def)
  then have "\<exists>r. minus_loop equal al dflt a b Set_default 0 = Inr r \<and> valid r
      \<and> elements r = filter (contains equal b) (elements a)"
    using assms by (intro minus_loop_inv) simp_all
  then show ?thesis
    by (auto simp: operator_minus_def)
qed

theorem operator_minus_spec_witness:
  "valid \<lparr>m_array = [1, 2, 3, 0 :: nat], m_size = 4, m_num_elements = 3\<rparr>
   \<and> valid \<lparr>m_array = [3, 4, 5, 0 :: nat], m_size = 4, m_num_elements = 3\<rparr>
   \<and> unique (=) (elements \<lparr>m_array = [1, 2, 3, 0 :: nat], m_size = 4, m_num_elements = 3\<rparr>)
   \<and> (\<forall>n. alloc_ok n)
   \<and> operator_minus (=) alloc_ok 0
        \<lparr>m_array = [1, 2, 3, 0 :: nat], m_size = 4, m_num_elements = 3\<rparr>
        \<lparr>m_array = [3, 4, 5, 0], m_size = 4, m_num_elements = 3\<rparr>
       = Inr \<lparr>m_array = [3], m_size = 1, m_num_elements = 1\<rparr>"
  using operator_minus_spec
    [of "\<lparr>m_array = [1, 2, 3, 0 :: nat], m_size = 4, m_num_elements = 3\<rparr>"
        "\<lparr>m_array = [3, 4, 5, 0 :: nat], m_size = 4, m_num_elements = 3\<rparr>" "(=)" alloc_ok 0]
  by (simp add: eval_simps unique.simps operator_minus_def minus_loop.simps)

section \<open>add followed by remove\<close>

text \<open>
  Claim C10. For every Set \<open>s\<close> and every value \<open>v\<close> that \<open>s\<close> does not contain,
  \<^verbatim>\<open>add(v)\<close> followed by \<^verbatim>\<open>remove(v)\<close> gives back the element sequence of \<open>s\<close>: the same
  elements in the same slots of the occupied range. The added element sits in the last
  occupied slot, so the backfill overwrites it with itself. The capacity may differ
  from the one of \<open>s\<close>. \<open>equal\<close> is an equivalence, of which \<open>equal v v\<close> is used; the two
  calls are ones in which no allocation fails.
\<close>

theorem add_remove_restores:
  assumes "valid s" and "\<not> contains equal s v" and "equal v v"
    and "\<forall>n. al1 n" and "\<forall>n. al2 n"
  shows "\<exists>s1 s2. add equal al1 dflt s v = (Inr True, s1)
    \<and> remove equal al2 dflt s1 v = (Inr True, s2)
    \<and> elements s2 = elements s
    \<and> m_num_elements s2 = m_num_elements s
    \<and> valid s2"
proof -
  let ?n = "m_num_elements s"
  from add_appends [OF assms(1,2), of al1 dflt] assms(4)
  obtain s1 where ad: "add equal al1 dflt s v = (Inr True, s1)"
    and n1: "m_num_elements s1 = ?n + 1"
    and at: "m_array s1 ! ?n = v"
    and el1: "elements s1 = elements s @ [v]"
    and v1: "valid s1"
    by auto
  have len: "length (elements s) = ?n"
    using assms(1) by (rule length_elements)
  have before: "\<not> equal (m_array s1 ! j) v" if j: "j < ?n" for j
  proof -
    have "m_array s1 ! j = elements s1 ! j"
      using j n1 by (simp add: elements_def)
    also have "\<dots> = elements s ! j"
      using j len by (simp add: el1 nth_append)
    also have "\<dots> = m_array s ! j"
      using j by (simp add: elements_def)
    finally show ?thesis
      using assms(2) j by (auto simp: contains_iff)
  qed
  have fm: "first_match equal s1 v ?n"
    using before at assms(3) n1 by (simp add: first_match_iff [OF v1])
  have el2: "elements (swap_remove s1 ?n) = elements s"
  proof -
    have "elements (swap_remove s1 ?n) = butlast ((elements s1)[?n := last (elements s1)])"
      using v1 n1 by (intro elements_swap_remove) simp_all
    moreover have "(elements s @ [v])[?n := v] = elements s @ [v]"
      using len by (simp add: list_update_append)
    ultimately show ?thesis
      by (simp add: el1)
  qed
  have v2: "valid (swap_remove s1 ?n)"
    using v1 by (rule valid_swap_remove)
  have n2: "m_num_elements (swap_remove s1 ?n) = ?n"
    using n1 by (simp add: swap_remove_fields)
  note r = remove_first_match [OF v1 fm, of al2 dflt]
  show ?thesis
  proof (cases "m_num_elements (swap_remove s1 ?n) \<le> m_size s1 div 4")
    case False
    then have "remove equal al2 dflt s1 v = (Inr True, swap_remove s1 ?n)"
      using r by simp
    then show ?thesis
      using ad el2 v2 n2 by blast
  next
    case True
    have "\<exists>s'. resize al2 dflt False (swap_remove s1 ?n) = (Inr (), s')
        \<and> elements s' = elements (swap_remove s1 ?n)
        \<and> m_num_elements s' = m_num_elements (swap_remove s1 ?n)
        \<and> m_size s' = m_size (swap_remove s1 ?n) div 2 \<and> valid s'"
      using v2 True assms(5) by (intro resize_shrink_ok) (simp_all add: swap_remove_fields)
    then obtain s2 where rs: "resize al2 dflt False (swap_remove s1 ?n) = (Inr (), s2)"
      and p: "elements s2 = elements (swap_remove s1 ?n)"
        "m_num_elements s2 = m_num_elements (swap_remove s1 ?n)" "valid s2"
      by blast
    have "remove equal al2 dflt s1 v = (Inr True, s2)"
      using r True rs by simp
    then show ?thesis
      using ad p el2 n2 by auto
  qed
qed

theorem add_remove_restores_witness:
  "valid \<lparr>m_array = [1, 2 :: nat], m_size = 2, m_num_elements = 2\<rparr>
   \<and> \<not> contains (=) \<lparr>m_array = [1, 2 :: nat], m_size = 2, m_num_elements = 2\<rparr> 3
   \<and> (3 :: nat) = 3
   \<and> (\<forall>n. alloc_ok n)
   \<and> add (=) alloc_ok 0 \<lparr>m_array = [1, 2 :: nat], m_size = 2, m_num_elements = 2\<rparr> 3
       = (Inr True, \<lparr>m_array = [1, 2, 3, 0], m_size = 4, m_num_elements = 3\<rparr>)
   \<and> remove (=) alloc_ok 0 \<lparr>m_array = [1, 2, 3, 0 :: nat], m_size = 4, m_num_elements = 3\<rparr> 3
       = (Inr True, \<lparr>m_array = [1, 2, 3, 0], m_size = 4, m_num_elements = 2\<rparr>)
   \<and> elements \<lparr>m_array = [1, 2, 3, 0 :: nat], m_size = 4, m_num_elements = 2\<rparr>
       = elements \<lparr>m_array = [1, 2 :: nat], m_size = 2, m_num_elements = 2\<rparr>"
  using add_remove_restores
    [of "\<lparr>m_array = [1, 2 :: nat], m_size = 2, m_num_elements = 2\<rparr>" "(=)" 3 alloc_ok alloc_ok 0]
  by (simp add: eval_remove)

section \<open>Sequences of operations\<close>

lemma grow_occupancy:
  fixes n c :: nat
  assumes "n \<le> c" and "c < 2 \<or> c div 4 < n"
  shows "(if n = c then (if c > 0 then c * 2 else 1) else c) < 2
    \<or> (if n = c then (if c > 0 then c * 2 else 1) else c) div 4 < n + 1"
proof (cases "n = c")
  case False
  then show ?thesis using assms(2) by auto
next
  case True
  show ?thesis
  proof (cases "c > 0")
    case False
    then show ?thesis using True by simp
  next
    case c: True
    have "c * 2 div 4 \<le> c"
      by presburger
    then show ?thesis using True c by simp
  qed
qed

lemma shrink_occupancy:
  fixes n c :: nat
  assumes "0 < n" and "n \<le> c" and "c < 2 \<or> c div 4 < n" and "n - 1 \<le> c div 4"
  shows "c div 2 < 2 \<or> c div 2 div 4 < n - 1"
proof (cases "c < 4")
  case True
  then have "c div 2 < 2" by presburger
  then show ?thesis by simp
next
  case False
  then have "c div 4 < n" using assms(3) by simp
  then have eq: "n - 1 = c div 4" using assms(1,4) by simp
  have "c div 2 div 4 = c div 8"
    by (simp add: div_mult2_eq [symmetric])
  moreover have "c div 8 < c div 4"
    using False by presburger
  ultimately show ?thesis using eq by simp
qed

lemma valid_add:
  assumes "valid s"
  shows "valid (snd (add equal al dflt s v))"
proof (cases "contains equal s v")
  case True
  then show ?thesis
    using assms by (simp add: add_contained)
next
  case nc: False
  show ?thesis
  proof (cases "m_num_elements s = m_size s \<and> \<not> al (if m_size s > 0 then m_size s * 2 else 1)")
    case True
    then have "add equal al dflt s v = (Inl BadAlloc, s)"
      using nc by (intro add_fails) simp_all
    then show ?thesis
      using assms by simp
  next
    case False
    then have "m_num_elements s = m_size s \<longrightarrow> al (if m_size s > 0 then m_size s * 2 else 1)"
      by blast
    from add_appends [of s equal v al dflt, OF assms nc this]
    show ?thesis
      by auto
  qed
qed

lemma occupancy_add:
  assumes "valid s" and "occupancy_ok s" and "\<forall>n. al n"
  shows "occupancy_ok (snd (add equal al dflt s v))"
proof (cases "contains equal s v")
  case True
  then show ?thesis
    using assms by (simp add: add_contained)
next
  case nc: False
  from add_appends [OF assms(1) nc, of al dflt] assms(3)
  obtain s' where ad: "add equal al dflt s v = (Inr True, s')"
    and n: "m_num_elements s' = m_num_elements s + 1"
    and sz: "m_size s' = (if m_num_elements s = m_size s
                      then (if m_size s > 0 then m_size s * 2 else 1) else m_size s)"
    by auto
  have "occupancy_ok s'"
    using grow_occupancy [of "m_num_elements s" "m_size s"] assms(1,2)
    by (simp only: occupancy_ok_def valid_def n sz)
  then show ?thesis
    using ad by simp
qed

lemma valid_remove:
  assumes "valid s"
  shows "valid (snd (remove equal al dflt s v))"
  using assms
  by (cases rule: remove_cases [where equal = equal and al = al and dflt = dflt and v = v])
    (simp_all add: valid_swap_remove assms)

lemma occupancy_remove:
  assumes "valid s" and "occupancy_ok s" and "\<forall>n. al n"
  shows "occupancy_ok (snd (remove equal al dflt s v))"
  using assms(1)
proof (cases rule: remove_cases [where equal = equal and al = al and dflt = dflt and v = v])
  case absent
  then show ?thesis using assms(2) by simp
next
  case (kept i)
  then show ?thesis
    by (simp add: occupancy_ok_def swap_remove_fields)
next
  case (failed i)
  then show ?thesis using assms(3) by simp
next
  case (shrunk i s')
  have "0 < m_num_elements s"
    using shrunk(1) by (simp add: first_match_def)
  then have "occupancy_ok s'"
    using shrink_occupancy [of "m_num_elements s" "m_size s"] assms(1,2) shrunk(2)
    by (simp only: occupancy_ok_def valid_def shrunk(5,6))
  then show ?thesis
    using shrunk(4) by simp
qed

lemma list_all_update:
  "list_all P st \<Longrightarrow> P x \<Longrightarrow> list_all P (st[i := x])"
  using set_update_subset_insert [of st i x] by (auto simp: list_all_iff)

lemma list_all_nth:
  "list_all P st \<Longrightarrow> i < length st \<Longrightarrow> P (st ! i)"
  by (simp add: list_all_length)

lemma exec_preserves:
  assumes add: "\<And>s v. P s \<Longrightarrow> P (snd (add equal al dflt s v))"
    and remove: "\<And>s v. P s \<Longrightarrow> P (snd (remove equal al dflt s v))"
    and empty: "\<And>s. P s \<Longrightarrow> P (empty_Set s)"
    and copy: "\<And>s c. P s \<Longrightarrow> Set_copy al dflt s = Inr c \<Longrightarrow> P c"
    and swap: "\<And>s t. P s \<Longrightarrow> P t \<Longrightarrow> P (fst (swap_Set s t)) \<and> P (snd (swap_Set s t))"
    and st: "list_all P st"
  shows "list_all P (exec equal dflt (al, c) st)"
proof (cases c)
  case (OpAdd i v)
  then show ?thesis
    using st add by (simp add: list_all_update list_all_nth)
next
  case (OpRemove i v)
  then show ?thesis
    using st remove by (simp add: list_all_update list_all_nth)
next
  case (OpEmpty i)
  then show ?thesis
    using st empty by (simp add: list_all_update list_all_nth)
next
  case (OpCopy i)
  show ?thesis
  proof (cases "i < length st")
    case False
    then show ?thesis using st OpCopy by simp
  next
    case True
    then have "P (st ! i)" using st by (simp add: list_all_nth)
    then show ?thesis
      using st OpCopy True copy by (cases "Set_copy al dflt (st ! i)") simp_all
  qed
next
  case (OpSwap i j)
  show ?thesis
  proof (cases "i < length st \<and> j < length st")
    case False
    then show ?thesis using st OpSwap by auto
  next
    case True
    then have "P (st ! i)" "P (st ! j)" using st by (simp_all add: list_all_nth)
    then have "P (fst (swap_Set (st ! i) (st ! j)))" "P (snd (swap_Set (st ! i) (st ! j)))"
      using swap by blast+
    then have "list_all P ((st[i := fst (swap_Set (st ! i) (st ! j))])
        [j := snd (swap_Set (st ! i) (st ! j))])"
      using st by (intro list_all_update)
    then show ?thesis
      using OpSwap True by (simp add: case_prod_beta)
  qed
qed

lemma valid_empty_Set: "valid (empty_Set s)"
  by (simp add: valid_def empty_Set_def)

lemma occupancy_empty_Set: "occupancy_ok (empty_Set s)"
  by (simp add: occupancy_ok_def empty_Set_def)

lemma valid_Set_copy:
  assumes "valid s" and "Set_copy al dflt s = Inr c"
  shows "valid c \<and> m_size c = m_size s \<and> m_num_elements c = m_num_elements s"
proof -
  have "al (m_size s)"
    using assms(2) by (auto simp: Set_copy_def new_array_def split: if_splits)
  from Set_copy_ok [of s al dflt, OF assms(1) this] assms(2) show ?thesis
    by auto
qed

lemma swap_Set_eq:
  "fst (swap_Set s t) = t \<and> snd (swap_Set s t) = s"
  by (simp add: swap_Set_def)

lemma exec_valid:
  assumes st: "list_all valid st"
  shows "list_all valid (exec equal dflt c st)"
proof -
  obtain al op where c: "c = (al, op)" by (cases c)
  have "list_all valid (exec equal dflt (al, op) st)"
  proof (rule exec_preserves [where P = valid, OF _ _ _ _ _ st])
    show "valid (snd (add equal al dflt s v))" if "valid s" for s v
      using that by (rule valid_add)
    show "valid (snd (remove equal al dflt s v))" if "valid s" for s v
      using that by (rule valid_remove)
    show "valid (empty_Set s)" for s :: "'a SetObj"
      by (rule valid_empty_Set)
    show "valid t" if "valid s" and "Set_copy al dflt s = Inr t" for s t
      using valid_Set_copy [OF that] by simp
    show "valid (fst (swap_Set s t)) \<and> valid (snd (swap_Set s t))"
      if "valid s" and "valid t" for s t :: "'a SetObj"
      using that by (simp add: swap_Set_eq)
  qed
  then show ?thesis
    by (simp only: c)
qed

lemma exec_occupancy:
  assumes st: "list_all (\<lambda>s. valid s \<and> occupancy_ok s) st" and ok: "\<forall>n. fst c n"
  shows "list_all (\<lambda>s. valid s \<and> occupancy_ok s) (exec equal dflt c st)"
proof -
  obtain al op where c: "c = (al, op)" by (cases c)
  then have al: "\<forall>n. al n" using ok by simp
  have "list_all (\<lambda>s. valid s \<and> occupancy_ok s) (exec equal dflt (al, op) st)"
  proof (rule exec_preserves [where P = "\<lambda>s. valid s \<and> occupancy_ok s", OF _ _ _ _ _ st])
    show "valid (snd (add equal al dflt s v)) \<and> occupancy_ok (snd (add equal al dflt s v))"
      if "valid s \<and> occupancy_ok s" for s v
      using that al by (simp add: valid_add occupancy_add)
    show "valid (snd (remove equal al dflt s v)) \<and> occupancy_ok (snd (remove equal al dflt s v))"
      if "valid s \<and> occupancy_ok s" for s v
      using that al by (simp add: valid_remove occupancy_remove)
    show "valid (empty_Set s) \<and> occupancy_ok (empty_Set s)" for s :: "'a SetObj"
      by (simp add: valid_empty_Set occupancy_empty_Set)
    show "valid t \<and> occupancy_ok t"
      if "valid s \<and> occupancy_ok s" and "Set_copy al dflt s = Inr t" for s t
      using valid_Set_copy [of s al dflt t] that by (simp add: occupancy_ok_def)
    show "(valid (fst (swap_Set s t)) \<and> occupancy_ok (fst (swap_Set s t)))
        \<and> (valid (snd (swap_Set s t)) \<and> occupancy_ok (snd (swap_Set s t)))"
      if "valid s \<and> occupancy_ok s" and "valid t \<and> occupancy_ok t" for s t :: "'a SetObj"
      using that by (simp add: swap_Set_eq)
  qed
  then show ?thesis
    by (simp only: c)
qed

lemma run_valid:
  "list_all valid st \<Longrightarrow> list_all valid (run equal dflt st cs)"
  by (induction cs arbitrary: st) (simp_all add: exec_valid)

lemma run_occupancy:
  "list_all (\<lambda>s. valid s \<and> occupancy_ok s) st \<Longrightarrow> \<forall>c \<in> set cs. \<forall>n. fst c n \<Longrightarrow>
   list_all (\<lambda>s. valid s \<and> occupancy_ok s) (run equal dflt st cs)"
proof (induction cs arbitrary: st)
  case Nil
  then show ?case by simp
next
  case (Cons c cs)
  have "\<forall>n. fst c n" and rest: "\<forall>c \<in> set cs. \<forall>n. fst c n"
    using Cons.prems(2) by simp_all
  then have "list_all (\<lambda>s. valid s \<and> occupancy_ok s) (exec equal dflt c st)"
    using Cons.prems(1) by (intro exec_occupancy)
  then have "list_all (\<lambda>s. valid s \<and> occupancy_ok s) (run equal dflt (exec equal dflt c st) cs)"
    using rest by (rule Cons.IH)
  then show ?case by simp
qed

text \<open>
  Claim C2, as the code has it. For every collection of Sets and every finite sequence of
  \<^verbatim>\<open>add\<close>, \<^verbatim>\<open>remove\<close>, \<^verbatim>\<open>empty\<close>, copy and \<^verbatim>\<open>swap\<close> calls on them, the count is at most the
  capacity after each call, whichever allocations fail. When no allocation fails and
  every Set starts with more than a quarter of its slots occupied or with fewer than
  two slots (as a default-constructed Set does), then after each call every Set with
  at least two slots has more than a quarter of them occupied. A Set with one slot
  may be empty.
\<close>

theorem run_invariants:
  assumes "list_all valid st"
  shows "(\<forall>k \<le> length cs. list_all valid (run equal dflt st (take k cs)))
    \<and> (list_all occupancy_ok st \<and> (\<forall>c \<in> set cs. \<forall>n. fst c n)
        \<longrightarrow> (\<forall>k \<le> length cs. list_all occupancy_ok (run equal dflt st (take k cs))))"
proof (intro conjI allI impI)
  fix k
  show "list_all valid (run equal dflt st (take k cs))"
    using assms by (rule run_valid)
next
  fix k
  assume h: "list_all occupancy_ok st \<and> (\<forall>c \<in> set cs. \<forall>n. fst c n)"
  have "\<forall>c \<in> set (take k cs). \<forall>n. fst c n"
    using h by (auto dest: in_set_takeD)
  moreover have "list_all (\<lambda>s. valid s \<and> occupancy_ok s) st"
    using assms h by (simp add: list_all_iff)
  ultimately have "list_all (\<lambda>s. valid s \<and> occupancy_ok s) (run equal dflt st (take k cs))"
    by (intro run_occupancy)
  then show "list_all occupancy_ok (run equal dflt st (take k cs))"
    by (simp add: list_all_iff)
qed

theorem run_invariants_witness:
  "list_all valid [Set_default :: nat SetObj]
   \<and> list_all occupancy_ok [Set_default :: nat SetObj]
   \<and> (\<forall>n. alloc_ok n)
   \<and> run (=) 0 [Set_default]
        [(alloc_ok, OpAdd 0 1), (alloc_ok, OpAdd 0 2), (alloc_ok, OpAdd 0 3),
         (alloc_ok, OpCopy 0), (alloc_ok, OpRemove 0 3), (alloc_ok, OpRemove 0 2),
         (alloc_ok, OpSwap 0 1), (alloc_ok, OpEmpty 1)]
       = [\<lparr>m_array = [1, 2, 3, 0 :: nat], m_size = 4, m_num_elements = 3\<rparr>,
          \<lparr>m_array = [], m_size = 0, m_num_elements = 0\<rparr>]
   \<and> list_all valid (run (=) 0 [Set_default :: nat SetObj]
        [(alloc_ok, OpAdd 0 1), (alloc_ok, OpAdd 0 2), (alloc_ok, OpAdd 0 3),
         (alloc_ok, OpCopy 0), (alloc_ok, OpRemove 0 3), (alloc_ok, OpRemove 0 2),
         (alloc_ok, OpSwap 0 1), (alloc_ok, OpEmpty 1)])
   \<and> list_all occupancy_ok (run (=) 0 [Set_default :: nat SetObj]
        [(alloc_ok, OpAdd 0 1), (alloc_ok, OpAdd 0 2), (alloc_ok, OpAdd 0 3),
         (alloc_ok, OpCopy 0), (alloc_ok, OpRemove 0 3), (alloc_ok, OpRemove 0 2),
         (alloc_ok, OpSwap 0 1), (alloc_ok, OpEmpty 1)])"
proof -
  let ?cs = "[(alloc_ok, OpAdd 0 1), (alloc_ok, OpAdd 0 2), (alloc_ok, OpAdd 0 3),
         (alloc_ok, OpCopy 0), (alloc_ok, OpRemove 0 3), (alloc_ok, OpRemove 0 2),
         (alloc_ok, OpSwap 0 1), (alloc_ok, OpEmpty 1)] :: (allocator \<times> nat operation) list"
  have v: "list_all valid [Set_default :: nat SetObj]"
    and o: "list_all occupancy_ok [Set_default :: nat SetObj]"
    by (simp_all add: valid_def occupancy_ok_def Set_default_def)
  have a: "\<forall>c \<in> set ?cs. \<forall>n. fst c n"
    by (simp add: alloc_ok_def)
  have k: "(8 :: nat) \<le> length ?cs" and t: "take 8 ?cs = ?cs"
    by simp_all
  note inv = run_invariants [OF v, of ?cs "(=)" 0]
  have 1: "list_all valid (run (=) 0 [Set_default] ?cs)"
    using inv k t by (metis (no_types))
  have 2: "list_all occupancy_ok (run (=) 0 [Set_default] ?cs)"
    using inv o a k t by (metis (no_types))
  have 3: "run (=) 0 [Set_default] ?cs
       = [\<lparr>m_array = [1, 2, 3, 0 :: nat], m_size = 4, m_num_elements = 3\<rparr>,
          \<lparr>m_array = [], m_size = 0, m_num_elements = 0\<rparr>]"
    by (simp add: eval_run)
  show ?thesis
    using v o 1 2 3 by (simp add: alloc_ok_def)
qed

text \<open>
  \<^verbatim>\<open>add(1); add(2); remove(1); remove(2)\<close> on a default-constructed Set, with every
  allocation succeeding: the last \<^verbatim>\<open>remove\<close> takes the count to \<open>0 \<le> 2 / 4\<close> and halves the
  array to one slot. The capacity is then positive and the count is not above a quarter
  of it.
\<close>

theorem remove_last_leaves_capacity_one:
  "run (=) 0 [Set_default]
     [(alloc_ok, OpAdd 0 1), (alloc_ok, OpAdd 0 2), (alloc_ok, OpRemove 0 1),
      (alloc_ok, OpRemove 0 2)]
     = [\<lparr>m_array = [0 :: nat], m_size = 1, m_num_elements = 0\<rparr>]
   \<and> 0 < m_size \<lparr>m_array = [0 :: nat], m_size = 1, m_num_elements = 0\<rparr>
   \<and> \<not> m_size \<lparr>m_array = [0 :: nat], m_size = 1, m_num_elements = 0\<rparr> div 4
         < m_num_elements \<lparr>m_array = [0 :: nat], m_size = 1, m_num_elements = 0\<rparr>"
  by (simp add: eval_run)

end
